theory Spec2Isabelle
  imports Main "HOL-Library.Word" "HOL-Library.Multiset"
begin

unbundle bit_operations_syntax

section \<open>Machine types\<close>

type_synonym u8 = "8 word"
type_synonym u16 = "16 word"
type_synonym u32 = "32 word"

section \<open>Tick scheduler (scheduler.cpp)\<close>

text \<open>
  A callback is a C function pointer \<^verbatim>\<open>void (*)()\<close>. The scheduler only stores it,
  compares it for identity and calls it, so it is modelled by its address.
\<close>

type_synonym callback = nat

record EventData =
  callback :: callback
  ticks :: u16

definition SCHEDULER_MAX_EVENTS :: nat where
  "SCHEDULER_MAX_EVENTS = 8"

text \<open>
  The static state of the scheduler together with the Timer 4 registers it programs.
  \<open>eventData\<close> is the static array of \<open>SCHEDULER_MAX_EVENTS\<close> entries, of which the first
  \<open>numEventsPending\<close> are the queue. \<open>numEventsPending\<close> is a \<^verbatim>\<open>uint8_t\<close>; every
  increment in the source is guarded by \<^verbatim>\<open>numEventsPending < 8\<close> and every decrement by
  \<^verbatim>\<open>numEventsPending > 0\<close>, so that it never wraps and is kept as a natural number.
  \<open>TIFR4\<close> holds the pending interrupt flags.
\<close>

record scheduler =
  eventData :: "EventData list"
  numEventsPending :: nat
  TCCR4A :: u8
  TCCR4B :: u8
  TIMSK4 :: u8
  TIFR4 :: u8
  OCR4A :: u16
  TCNT4 :: u16

text \<open>Bit positions of the ATmega2560 Timer 4 registers (vendor header), and Arduino's \<^verbatim>\<open>bit()\<close>.\<close>

definition OCIE4A :: nat where "OCIE4A = 1"
definition WGM42 :: nat where "WGM42 = 3"
definition CS42 :: nat where "CS42 = 2"
definition CS40 :: nat where "CS40 = 0"

definition bit_mask :: "nat \<Rightarrow> u8" where
  "bit_mask b = push_bit b 1"

text \<open>Writing \<^verbatim>\<open>0xFF\<close> to \<open>TIFR4\<close> acknowledges, that is clears, every pending flag.\<close>

definition schedulerTimerDisable :: "scheduler \<Rightarrow> scheduler" where
  "schedulerTimerDisable s = s\<lparr>TCCR4A := 0, TCCR4B := 0, TIMSK4 := 0, TIFR4 := 0\<rparr>"

definition schedulerTimerSetup :: "scheduler \<Rightarrow> scheduler" where
  "schedulerTimerSetup s =
     (if 0 < numEventsPending s
      then s\<lparr>OCR4A := ticks (eventData s ! 0),
             TIMSK4 := bit_mask OCIE4A,
             TCCR4A := 0,
             TCCR4B := bit_mask WGM42 OR bit_mask CS42 OR bit_mask CS40,
             TCNT4 := 0\<rparr>
      else s)"

text \<open>
  The loop "subtract time elapsed from all events", which the source has three times
  (with \<open>TCNT4\<close> in \<open>scheduleEvent\<close> and \<open>cancelEvents\<close>, with \<open>OCR4A\<close> in the interrupt
  routine). The timer is stopped or the register is a compare value, so \<open>elapsed\<close> is the
  same at every iteration.
\<close>

function subtractElapsed :: "u16 \<Rightarrow> nat \<Rightarrow> nat \<Rightarrow> EventData list \<Rightarrow> EventData list" where
  "subtractElapsed elapsed n i ev =
     (if i < n
      then subtractElapsed elapsed n (i + 1)
             (ev[i := (if ticks (ev ! i) < elapsed
                       then (ev ! i)\<lparr>ticks := 0\<rparr>
                       else (ev ! i)\<lparr>ticks := ticks (ev ! i) - elapsed\<rparr>)])
      else ev)"
  by pat_completeness auto
termination
  by (relation "measure (\<lambda>(elapsed, n, i, ev). n - i)") auto

declare subtractElapsed.simps [simp del]

text \<open>
  The insertion loop of \<open>scheduleEvent\<close>: \<^verbatim>\<open>while (i >= 0 && eventData[i].ticks > ticks)\<close>
  moves entries one slot to the right. \<open>i\<close> is an \<^verbatim>\<open>int8_t\<close> that reaches \<open>-1\<close>.
\<close>

function shiftRight :: "u16 \<Rightarrow> int \<Rightarrow> EventData list \<Rightarrow> int \<times> EventData list" where
  "shiftRight t i ev =
     (if 0 \<le> i \<and> t < ticks (ev ! nat i)
      then shiftRight t (i - 1) (ev[nat (i + 1) := ev ! nat i])
      else (i, ev))"
  by pat_completeness auto
termination
  by (relation "measure (\<lambda>(t, i, ev). nat (i + 1))") auto

declare shiftRight.simps [simp del]

definition scheduleEvent :: "callback \<Rightarrow> u16 \<Rightarrow> scheduler \<Rightarrow> bool \<times> scheduler" where
  "scheduleEvent cb ticks0 s =
     (let ticks1 = (if 1 \<le> ticks0 then ticks0 - 1 else ticks0);
          ticks2 = (if ticks1 = 0 then 1 else ticks1)
      in if SCHEDULER_MAX_EVENTS \<le> numEventsPending s then (False, s)
         else
           let s1 = schedulerTimerDisable s;
               ev1 = subtractElapsed (TCNT4 s1) (numEventsPending s1) 0 (eventData s1);
               e = \<lparr>callback = cb, ticks = ticks2\<rparr>;
               (i, ev2) = shiftRight ticks2 (int (numEventsPending s1) - 1) ev1;
               ev3 = ev2[nat (i + 1) := e];
               s2 = s1\<lparr>eventData := ev3, numEventsPending := numEventsPending s1 + 1\<rparr>
           in (True, schedulerTimerSetup s2))"

text \<open>
  "Remove event from list by shifting events to the right to the left": the loop
  \<^verbatim>\<open>while (i < numEventsPending) { eventData[i - 1] = eventData[i]; i++; }\<close>, started at
  \<open>1\<close> by the interrupt routine and at \<open>i + 1\<close> by \<open>cancelEvents\<close>.
\<close>

function shiftLeft :: "nat \<Rightarrow> nat \<Rightarrow> EventData list \<Rightarrow> EventData list" where
  "shiftLeft n i ev =
     (if i < n then shiftLeft n (i + 1) (ev[i - 1 := ev ! i]) else ev)"
  by pat_completeness auto
termination
  by (relation "measure (\<lambda>(n, i, ev). n - i)") auto

declare shiftLeft.simps [simp del]

text \<open>
  The interrupt routine calls the callback of every due event. What a callback does to
  the scheduler (it may call \<open>scheduleEvent\<close> or \<open>cancelEvents\<close>) is the parameter \<open>run\<close>.
  Callbacks can keep the dispatch loop busy for ever, so the loop is a partial function:
  \<open>None\<close> is a loop that does not end.
\<close>

partial_function (option) dispatchDue ::
    "(callback \<Rightarrow> scheduler \<Rightarrow> scheduler) \<Rightarrow> scheduler \<Rightarrow> scheduler option" where
  "dispatchDue run s =
     (if ticks (eventData s ! 0) = 0 \<and> 0 < numEventsPending s
      then dispatchDue run
             (run (callback (eventData s ! 0))
                (s\<lparr>eventData := shiftLeft (numEventsPending s) 1 (eventData s),
                   numEventsPending := numEventsPending s - 1\<rparr>))
      else Some s)"

declare dispatchDue.simps [code]

definition ISR_TIMER4_COMPA ::
    "(callback \<Rightarrow> scheduler \<Rightarrow> scheduler) \<Rightarrow> scheduler \<Rightarrow> scheduler option" where
  "ISR_TIMER4_COMPA run s =
     map_option schedulerTimerSetup
       (dispatchDue run
          (s\<lparr>eventData := subtractElapsed (OCR4A s) (numEventsPending s) 0 (eventData s)\<rparr>))"

text \<open>The two nested loops of \<open>cancelEvents\<close>, on the array and the pending count.\<close>

function cancelInner ::
    "callback \<Rightarrow> nat \<Rightarrow> EventData list \<times> nat \<Rightarrow> EventData list \<times> nat" where
  "cancelInner cb i (ev, n) =
     (if i < n \<and> callback (ev ! i) = cb
      then cancelInner cb i (shiftLeft n (i + 1) ev, n - 1)
      else (ev, n))"
  by pat_completeness auto
termination
  by (relation "measure (\<lambda>(cb, i, ev, n). n)") auto

declare cancelInner.simps [simp del]

function cancelOuter ::
    "callback \<Rightarrow> nat \<Rightarrow> EventData list \<times> nat \<Rightarrow> EventData list \<times> nat" where
  "cancelOuter cb i (ev, n) =
     (if i < n then cancelOuter cb (i + 1) (cancelInner cb i (ev, n)) else (ev, n))"
  by pat_completeness auto
termination
proof (relation "measure (\<lambda>(cb, i, ev, n). n - i)")
  show "wf (measure (\<lambda>(cb, i, ev, n). n - i))"
    by simp
next
  fix cb :: callback and i n :: nat and ev :: "EventData list"
  assume less: "i < n"
  have shrink: "snd (cancelInner c j (a, m)) \<le> m" for c j a m
  proof (induction c j "(a, m)" arbitrary: a m rule: cancelInner.induct)
    case (1 c j a m)
    show ?case
    proof (cases "j < m \<and> callback (a ! j) = c")
      case True
      then have "snd (cancelInner c j (shiftLeft m (j + 1) a, m - 1)) \<le> m - 1"
        using 1 by blast
      with True show ?thesis
        by (subst cancelInner.simps) simp
    next
      case False
      then show ?thesis
        by (subst cancelInner.simps) auto
    qed
  qed
  obtain ev' n' where res: "cancelInner cb i (ev, n) = (ev', n')"
    by (cases "cancelInner cb i (ev, n)")
  with shrink [of cb i ev n] have "n' \<le> n"
    by simp
  with less res show "((cb, i + 1, cancelInner cb i (ev, n)), (cb, i, ev, n))
          \<in> measure (\<lambda>(cb, i, ev, n). n - i)"
    by simp
qed

declare cancelOuter.simps [simp del]

definition cancelEvents :: "callback \<Rightarrow> scheduler \<Rightarrow> scheduler" where
  "cancelEvents cb s =
     (let s1 = schedulerTimerDisable s;
          ev1 = subtractElapsed (TCNT4 s1) (numEventsPending s1) 0 (eventData s1);
          (ev2, n2) = cancelOuter cb 0 (ev1, numEventsPending s1)
      in schedulerTimerSetup (s1\<lparr>eventData := ev2, numEventsPending := n2\<rparr>))"

text \<open>The queue proper: the first \<open>numEventsPending\<close> entries of the array.\<close>

definition pending :: "scheduler \<Rightarrow> EventData list" where
  "pending s = take (numEventsPending s) (eventData s)"

text \<open>A queue holding eight events, used as a concrete input.\<close>

definition full_queue :: scheduler where
  "full_queue =
     \<lparr>eventData =
        [\<lparr>callback = 1, ticks = 10\<rparr>, \<lparr>callback = 2, ticks = 20\<rparr>,
         \<lparr>callback = 1, ticks = 30\<rparr>, \<lparr>callback = 3, ticks = 40\<rparr>,
         \<lparr>callback = 4, ticks = 50\<rparr>, \<lparr>callback = 5, ticks = 60\<rparr>,
         \<lparr>callback = 6, ticks = 70\<rparr>, \<lparr>callback = 7, ticks = 80\<rparr>],
      numEventsPending = 8,
      TCCR4A = 0, TCCR4B = 13, TIMSK4 = 2, TIFR4 = 0, OCR4A = 10, TCNT4 = 4\<rparr>"

text \<open>
  What one iteration of the subtraction loop does to an entry: the elapsed count is taken
  from the remaining ticks, and an entry that has less than that is set to zero.
\<close>

definition rebase :: "u16 \<Rightarrow> EventData \<Rightarrow> EventData" where
  "rebase c e = (if ticks e < c then e\<lparr>ticks := 0\<rparr> else e\<lparr>ticks := ticks e - c\<rparr>)"

text \<open>
  The invariant of the queue: the array has its eight slots, at most eight of them are
  pending, and the pending entries are in ascending order of remaining ticks.
\<close>

definition queue_inv :: "scheduler \<Rightarrow> bool" where
  "queue_inv s \<longleftrightarrow>
     length (eventData s) = SCHEDULER_MAX_EVENTS \<and>
     numEventsPending s \<le> SCHEDULER_MAX_EVENTS \<and>
     sorted (map ticks (pending s))"

text \<open>The number of pending events that are due (no ticks left).\<close>

definition due :: "scheduler \<Rightarrow> nat" where
  "due s = length (filter (\<lambda>e. ticks e = 0) (pending s))"

text \<open>A queue holding three events, thirty ticks after the timer was programmed.\<close>

definition sample_queue :: scheduler where
  "sample_queue =
     \<lparr>eventData =
        [\<lparr>callback = 1, ticks = 100\<rparr>, \<lparr>callback = 2, ticks = 200\<rparr>,
         \<lparr>callback = 1, ticks = 300\<rparr>, \<lparr>callback = 0, ticks = 0\<rparr>,
         \<lparr>callback = 0, ticks = 0\<rparr>, \<lparr>callback = 0, ticks = 0\<rparr>,
         \<lparr>callback = 0, ticks = 0\<rparr>, \<lparr>callback = 0, ticks = 0\<rparr>],
      numEventsPending = 3,
      TCCR4A = 0, TCCR4B = 13, TIMSK4 = 2, TIFR4 = 0, OCR4A = 100, TCNT4 = 30\<rparr>"

text \<open>
  The two self-renewing tasks of FEHInternal.cpp as far as the scheduler sees them:
  \<open>eventESP32Poll\<close> (callback 1 here) ends with \<^verbatim>\<open>scheduleEvent(eventESP32Poll, 781)\<close> and
  \<open>eventHealthCheck\<close> (callback 2) with \<^verbatim>\<open>scheduleEvent(eventHealthCheck, 1563)\<close>.
\<close>

definition supervisor_callbacks :: "callback \<Rightarrow> scheduler \<Rightarrow> scheduler" where
  "supervisor_callbacks c x =
     (if c = 1 then snd (scheduleEvent 1 781 x)
      else if c = 2 then snd (scheduleEvent 2 1563 x)
      else x)"






text \<open>
  The queue as its users see it: for each pending event, in queue order, its callback and
  the ticks left from now until it is due. The stored count is relative to the moment the
  timer was last programmed, which is \<open>TCNT4\<close> ticks ago.
\<close>

definition timeLeft :: "scheduler \<Rightarrow> (callback \<times> nat) list" where
  "timeLeft s = map (\<lambda>e. (callback e, unat (ticks e) - unat (TCNT4 s))) (pending s)"

section \<open>Wire protocol (UpdaterProtocol.h, ApplicationProtocol.h) and transport configuration (esp32.h)\<close>

text \<open>
  The constants of the two generated protocol headers that the transport and the driver
  use, with the values the headers give them.
\<close>

definition UPDATER_PROTOCOL_SYNC_BYTE_1 :: u8 where "UPDATER_PROTOCOL_SYNC_BYTE_1 = 0xAA"
definition UPDATER_PROTOCOL_SYNC_BYTE_2 :: u8 where "UPDATER_PROTOCOL_SYNC_BYTE_2 = 0x55"
definition UPDATER_PROTOCOL_DATA_SIZE :: nat where "UPDATER_PROTOCOL_DATA_SIZE = 41"
definition UPDATER_PROTOCOL_HEADER_SIZE :: nat where "UPDATER_PROTOCOL_HEADER_SIZE = 4"
definition ESP32_TX_BUF_LEN :: nat where "ESP32_TX_BUF_LEN = 48"

definition CMD_WIFI_CONNECT :: u8 where "CMD_WIFI_CONNECT = 0x10"
definition CMD_WIFI_CONNECT_FAST :: u8 where "CMD_WIFI_CONNECT_FAST = 0x11"

definition RSP_ACK :: u8 where "RSP_ACK = 0x80"
definition RSP_PONG :: u8 where "RSP_PONG = 0x82"
definition NOTIFY_DEBUG :: u8 where "NOTIFY_DEBUG = 0x83"
definition NOTIFY_WIFI_CONNECTED :: u8 where "NOTIFY_WIFI_CONNECTED = 0x91"
definition NOTIFY_WIFI_FAILED :: u8 where "NOTIFY_WIFI_FAILED = 0x92"
definition NOTIFY_WIFI_DISCONNECTED :: u8 where "NOTIFY_WIFI_DISCONNECTED = 0x93"
definition RSP_PARTITION_VALID :: u8 where "RSP_PARTITION_VALID = 0xB0"
definition NOTIFY_FLASH_PROGRESS :: u8 where "NOTIFY_FLASH_PROGRESS = 0xB1"
definition NOTIFY_FLASH_COMPLETE :: u8 where "NOTIFY_FLASH_COMPLETE = 0xB2"
definition NOTIFY_FLASH_FAILED :: u8 where "NOTIFY_FLASH_FAILED = 0xB3"
definition NOTIFY_RCS_CONNECTED :: u8 where "NOTIFY_RCS_CONNECTED = 0xC0"
definition NOTIFY_RCS_DISCONNECTED :: u8 where "NOTIFY_RCS_DISCONNECTED = 0xC1"
definition NOTIFY_RCS_DATA :: u8 where "NOTIFY_RCS_DATA = 0xC2"
definition RSP_BLE_STATUS :: u8 where "RSP_BLE_STATUS = 0xC3"
definition NOTIFY_BLE_CLIENT_EVENT :: u8 where "NOTIFY_BLE_CLIENT_EVENT = 0xC4"

definition BLE_STATE_OFF :: u8 where "BLE_STATE_OFF = 0x00"
definition BLE_STATE_ADVERTISING :: u8 where "BLE_STATE_ADVERTISING = 0x01"
definition BLE_STATE_CONNECTED :: u8 where "BLE_STATE_CONNECTED = 0x02"
definition BLE_EVENT_CLIENT_CONNECTED :: u8 where "BLE_EVENT_CLIENT_CONNECTED = 0x01"
definition BLE_EVENT_CLIENT_DISCONNECTED :: u8 where "BLE_EVENT_CLIENT_DISCONNECTED = 0x02"

section \<open>State of the co-processor link (FEHESP32.cpp, esp32.cpp)\<close>

text \<open>
  The driver and the transport keep their state in static variables; the model gathers
  them, with the part of the environment they act on, in one record.
  \<^item> \<open>s_version\<close> to \<open>s_bleState\<close> are the statics of \<open>FEHESP32\<close>, the link session state;
  \<^item> \<open>s_rxCallback\<close>, \<open>s_lastPollTime\<close> and \<open>s_isInitialized\<close> are the statics of esp32.cpp;
  \<^item> \<open>clock_ms\<close> is the 32-bit millisecond counter that \<^verbatim>\<open>millis()\<close> reads; it advances by
    \<^verbatim>\<open>delay()\<close> only, a transfer taking less than the resolution of the clock;
  \<^item> \<open>pin_EN\<close> and \<open>pin_SPARE\<close> are the enable and factory-reset lines;
  \<^item> \<open>spi_sent\<close> lists the frames clocked out so far, oldest first, and \<open>spi_peer\<close> the
    answers the co-processor has queued for the coming transfers (one per transfer; an
    empty queue answers with zeros);
  \<^item> \<open>serial_out\<close> is what was written to \<open>Serial\<close>, and \<open>rcs_calls\<close> the calls made to the
    registered RCS callback (the callback, the pointer into the message, the length).

  A function pointer is \<open>None\<close> when null. The only function ever registered with the
  transport is \<open>FEHESP32::handleMessage\<close>.
\<close>

record ESP32Version =
  major :: u8
  minor :: u8
  patch :: u8
  partition :: u8

datatype ESP32MessageCallback = Ptr_FEHESP32_handleMessage

datatype serial_op = Serial_print string | Serial_write u8 | Serial_print_bytes "u8 list" | Serial_println

record world =
  s_version :: ESP32Version
  s_connected :: bool
  s_flashing :: bool
  s_flashComplete :: bool
  s_flashError :: bool
  s_flashErrorCode :: u8
  s_flashBytes :: u32
  s_flashTotal :: u32
  s_partitionValid :: bool
  s_validatedPartition :: u8
  s_lastAckedCmd :: u8
  s_wifiConnectResult :: bool
  s_wifiConnectSuccess :: bool
  s_rcsConnected :: bool
  s_rcsCallback :: "callback option"
  s_bleState :: u8
  s_rxCallback :: "ESP32MessageCallback option"
  s_lastPollTime :: u32
  s_isInitialized :: bool
  clock_ms :: u32
  pin_EN :: bool
  pin_SPARE :: bool
  spi_sent :: "u8 list list"
  spi_peer :: "u8 list list"
  serial_out :: "serial_op list"
  rcs_calls :: "(callback \<times> u8 list \<times> u8) list"

text \<open>The state at start-up: the static initialisers of both files.\<close>

definition boot_world :: world where
  "boot_world =
     \<lparr>s_version = \<lparr>major = 0, minor = 0, patch = 0, partition = 0xFF\<rparr>,
      s_connected = False, s_flashing = False, s_flashComplete = False, s_flashError = False,
      s_flashErrorCode = 0, s_flashBytes = 0, s_flashTotal = 0,
      s_partitionValid = False, s_validatedPartition = 0xFF, s_lastAckedCmd = 0x00,
      s_wifiConnectResult = False, s_wifiConnectSuccess = False, s_rcsConnected = False,
      s_rcsCallback = None, s_bleState = BLE_STATE_OFF,
      s_rxCallback = None, s_lastPollTime = 0, s_isInitialized = False,
      clock_ms = 0, pin_EN = False, pin_SPARE = False,
      spi_sent = [], spi_peer = [], serial_out = [], rcs_calls = []\<rparr>"

definition millis :: "world \<Rightarrow> u32" where
  "millis w = clock_ms w"

definition delay :: "u32 \<Rightarrow> world \<Rightarrow> world" where
  "delay ms w = w\<lparr>clock_ms := clock_ms w + ms\<rparr>"

text \<open>
  \<^verbatim>\<open>memcpy(&s_flashBytes, &data[0], 4)\<close> reads four bytes as a \<^verbatim>\<open>uint32_t\<close>, least
  significant byte first on this controller.
\<close>

definition le32 :: "u8 \<Rightarrow> u8 \<Rightarrow> u8 \<Rightarrow> u8 \<Rightarrow> u32" where
  "le32 b0 b1 b2 b3 =
     ucast b0 OR push_bit 8 (ucast b1) OR push_bit 16 (ucast b2) OR push_bit 24 (ucast b3)"

text \<open>
  The dispatcher. \<open>msg\<close> is the received buffer, \<open>len\<close> the total length the transport
  passes; \<open>data\<close> stands for the pointer \<^verbatim>\<open>&msg[4]\<close>. The command ids are pairwise
  distinct, so the \<^verbatim>\<open>switch\<close> is a chain of tests.
\<close>

definition FEHESP32_handleMessage :: "u8 list \<Rightarrow> u8 \<Rightarrow> world \<Rightarrow> world" where
  "FEHESP32_handleMessage msg len w =
     (if len < 4 then w
      else
        let cmd = msg ! 2;
            data = (\<lambda>i. msg ! (4 + i))
        in
          if cmd = RSP_ACK then
            (if 5 \<le> len then w\<lparr>s_lastAckedCmd := data 0\<rparr> else w)
          else if cmd = RSP_PONG then
            (if 8 \<le> len
             then w\<lparr>s_version := \<lparr>major = data 0, minor = data 1, patch = data 2, partition = data 3\<rparr>\<rparr>
             else w)
          else if cmd = NOTIFY_DEBUG then
            (if 4 < len
             then w\<lparr>serial_out := serial_out w @ [Serial_print ''ESP32 DEBUG: ''] @
                      map (\<lambda>i. Serial_write (data i)) [0..<unat (msg ! 3)] @ [Serial_println]\<rparr>
             else w)
          else if cmd = NOTIFY_WIFI_CONNECTED then
            w\<lparr>s_connected := True, s_wifiConnectResult := True, s_wifiConnectSuccess := True\<rparr>
          else if cmd = NOTIFY_WIFI_DISCONNECTED \<or> cmd = NOTIFY_WIFI_FAILED then
            w\<lparr>s_connected := False, s_wifiConnectResult := True, s_wifiConnectSuccess := False\<rparr>
          else if cmd = NOTIFY_RCS_CONNECTED then w\<lparr>s_rcsConnected := True\<rparr>
          else if cmd = NOTIFY_RCS_DISCONNECTED then w\<lparr>s_rcsConnected := False\<rparr>
          else if cmd = NOTIFY_RCS_DATA then
            (case s_rcsCallback w of
               Some cb \<Rightarrow>
                 if 4 < len then w\<lparr>rcs_calls := rcs_calls w @ [(cb, drop 4 msg, msg ! 3)]\<rparr> else w
             | None \<Rightarrow> w)
          else if cmd = NOTIFY_FLASH_PROGRESS then
            (if 12 \<le> len
             then w\<lparr>s_flashBytes := le32 (data 0) (data 1) (data 2) (data 3),
                    s_flashTotal := le32 (data 4) (data 5) (data 6) (data 7),
                    s_flashing := True\<rparr>
             else w)
          else if cmd = NOTIFY_FLASH_COMPLETE then w\<lparr>s_flashing := False, s_flashComplete := True\<rparr>
          else if cmd = NOTIFY_FLASH_FAILED then
            (let w1 = w\<lparr>s_flashing := False, s_flashError := True\<rparr>
             in if 5 \<le> len then w1\<lparr>s_flashErrorCode := data 0\<rparr> else w1)
          else if cmd = RSP_PARTITION_VALID then
            (if 5 \<le> len then w\<lparr>s_partitionValid := True, s_validatedPartition := data 0\<rparr> else w)
          else if cmd = RSP_BLE_STATUS then
            (if 5 \<le> len then w\<lparr>s_bleState := data 0\<rparr> else w)
          else if cmd = NOTIFY_BLE_CLIENT_EVENT then
            (if 5 \<le> len
             then (if data 0 = BLE_EVENT_CLIENT_CONNECTED then w\<lparr>s_bleState := BLE_STATE_CONNECTED\<rparr>
                   else if data 0 = BLE_EVENT_CLIENT_DISCONNECTED then w\<lparr>s_bleState := BLE_STATE_ADVERTISING\<rparr>
                   else w)
             else w)
          else w)"

text \<open>
  One transfer of \<open>ESP32_TX_BUF_LEN\<close> bytes: \<open>tx\<close> goes out and the next queued answer of
  the co-processor comes in.
\<close>

definition spiTransfer :: "u8 list \<Rightarrow> world \<Rightarrow> u8 list \<times> world" where
  "spiTransfer tx w =
     (case spi_peer w of
        [] \<Rightarrow> (replicate ESP32_TX_BUF_LEN 0, w\<lparr>spi_sent := spi_sent w @ [tx]\<rparr>)
      | r # rs \<Rightarrow>
          (take ESP32_TX_BUF_LEN (r @ replicate ESP32_TX_BUF_LEN 0),
           w\<lparr>spi_sent := spi_sent w @ [tx], spi_peer := rs\<rparr>))"

text \<open>
  The local \<open>totalLen\<close> of \<open>handleReceivedMessage\<close>: the header size plus the length byte
  of the frame after its validation against the buffer size.
\<close>

definition receivedTotalLen :: "u8 list \<Rightarrow> u8" where
  "receivedTotalLen rxBuf =
     (let dataLen = rxBuf ! 3;
          dataLen' = (if ESP32_TX_BUF_LEN - UPDATER_PROTOCOL_HEADER_SIZE < unat dataLen
                      then of_nat (ESP32_TX_BUF_LEN - UPDATER_PROTOCOL_HEADER_SIZE)
                      else dataLen)
      in of_nat UPDATER_PROTOCOL_HEADER_SIZE + dataLen')"

definition handleReceivedMessage :: "u8 list \<Rightarrow> world \<Rightarrow> world" where
  "handleReceivedMessage rxBuf w =
     (if rxBuf ! 0 \<noteq> UPDATER_PROTOCOL_SYNC_BYTE_1 \<or> rxBuf ! 1 \<noteq> UPDATER_PROTOCOL_SYNC_BYTE_2
      then w
      else
        case s_rxCallback w of
          Some Ptr_FEHESP32_handleMessage \<Rightarrow> FEHESP32_handleMessage rxBuf (receivedTotalLen rxBuf) w
        | None \<Rightarrow> w)"

text \<open>
  \<open>memcpy dst off src n\<close> is \<open>dst\<close> after \<^verbatim>\<open>memcpy(&dst[off], src, n)\<close>. The callers modelled
  here pass at least \<open>n\<close> source bytes and stay within \<open>dst\<close>.
\<close>

definition memcpy :: "u8 list \<Rightarrow> nat \<Rightarrow> u8 list \<Rightarrow> nat \<Rightarrow> u8 list" where
  "memcpy dst off src n = take off dst @ take n src @ drop (off + n) dst"

definition ESP32_powerOff :: "world \<Rightarrow> world" where
  "ESP32_powerOff w = w\<lparr>pin_EN := False, pin_SPARE := False\<rparr>"

definition ESP32_powerOn :: "bool \<Rightarrow> world \<Rightarrow> world" where
  "ESP32_powerOn factoryReset w =
     (let w1 = (if factoryReset then w\<lparr>pin_SPARE := True\<rparr> else w);
          w2 = delay 1500 (w1\<lparr>pin_EN := True\<rparr>)
      in if factoryReset then w2\<lparr>pin_SPARE := False\<rparr> else w2)"

definition ESP32_reset :: "bool \<Rightarrow> world \<Rightarrow> world" where
  "ESP32_reset factoryReset w = ESP32_powerOn factoryReset (delay 100 (ESP32_powerOff w))"

definition ESP32_init :: "ESP32MessageCallback option \<Rightarrow> world \<Rightarrow> world" where
  "ESP32_init messageCallback w =
     (ESP32_powerOff (w\<lparr>s_rxCallback := messageCallback, s_lastPollTime := 0\<rparr>))\<lparr>s_isInitialized := True\<rparr>"

text \<open>
  \<open>data\<close> is \<open>None\<close> for a null pointer. The length byte is written from \<open>dataLen\<close> before
  the copy, and the copy alone is bounded by the room left in the buffer.
\<close>

definition ESP32_sendCommand :: "u8 \<Rightarrow> u8 list option \<Rightarrow> u8 \<Rightarrow> world \<Rightarrow> bool \<times> world" where
  "ESP32_sendCommand cmd data dataLen w =
     (if \<not> s_isInitialized w then (False, w)
      else
        let tx0 = replicate ESP32_TX_BUF_LEN 0;
            tx =
              (if data \<noteq> None \<and> 2 \<le> dataLen \<and>
                  the data ! 0 = UPDATER_PROTOCOL_SYNC_BYTE_1 \<and>
                  the data ! 1 = UPDATER_PROTOCOL_SYNC_BYTE_2
               then memcpy tx0 0 (the data) (min (unat dataLen) ESP32_TX_BUF_LEN)
               else
                 let tx1 = tx0[0 := UPDATER_PROTOCOL_SYNC_BYTE_1, 1 := UPDATER_PROTOCOL_SYNC_BYTE_2,
                               2 := cmd, 3 := dataLen]
                 in if 0 < dataLen \<and> data \<noteq> None
                    then memcpy tx1 4 (the data) (min (unat dataLen) (ESP32_TX_BUF_LEN - 4))
                    else tx1);
            (rx, w1) = spiTransfer tx w
        in (True, handleReceivedMessage rx w1))"

definition ESP32_poll :: "world \<Rightarrow> world" where
  "ESP32_poll w =
     (if \<not> s_isInitialized w then w
      else
        let (rx, w1) = spiTransfer (replicate ESP32_TX_BUF_LEN 0) w
        in handleReceivedMessage rx w1)"

definition FEHESP32_init :: "world \<Rightarrow> world" where
  "FEHESP32_init w = ESP32_init (Some Ptr_FEHESP32_handleMessage) w"

definition FEHESP32_poll :: "world \<Rightarrow> world" where
  "FEHESP32_poll w = ESP32_poll w"

text \<open>
  A C string is given by the bytes it points to; its length is the number of bytes before
  the first zero. The driver stores that length in a \<^verbatim>\<open>uint8_t\<close>.
\<close>

definition strlen :: "u8 list \<Rightarrow> nat" where
  "strlen s = length (takeWhile (\<lambda>c. c \<noteq> 0) s)"

definition FEHESP32_connectWifi :: "u8 list \<Rightarrow> u8 list \<Rightarrow> world \<Rightarrow> bool \<times> world" where
  "FEHESP32_connectWifi ssid password w =
     (let ssidLen = (of_nat (strlen ssid) :: u8);
          passLen = (of_nat (strlen password) :: u8)
      in if 16 < ssidLen \<or> 16 < passLen then (False, w)
         else
           let buf = [ssidLen] @ take (unat ssidLen) ssid @ [passLen] @
                     (if 0 < passLen then take (unat passLen) password else [])
           in ESP32_sendCommand CMD_WIFI_CONNECT (Some buf) (2 + ssidLen + passLen) w)"

definition FEHESP32_connectWifiFast ::
    "u8 list \<Rightarrow> u8 list \<Rightarrow> u8 list option \<Rightarrow> u8 \<Rightarrow> world \<Rightarrow> bool \<times> world" where
  "FEHESP32_connectWifiFast ssid password bssid channel w =
     (let ssidLen = (of_nat (strlen ssid) :: u8);
          passLen = (of_nat (strlen password) :: u8)
      in if 16 < ssidLen \<or> 16 < passLen \<or> bssid = None then (False, w)
         else
           let buf = [ssidLen] @ take (unat ssidLen) ssid @ [passLen] @
                     (if 0 < passLen then take (unat passLen) password else []) @
                     take 6 (the bssid) @ [channel];
               pos = 1 + ssidLen + 1 + (if 0 < passLen then passLen else 0) + 6 + 1;
               w1 = w\<lparr>serial_out := serial_out w @
                      [Serial_print ''FEHESP32::connectWifiFast called with SSID: '',
                       Serial_print_bytes (take (strlen ssid) ssid), Serial_println]\<rparr>
           in ESP32_sendCommand CMD_WIFI_CONNECT_FAST (Some buf) pos w1)"

text \<open>The assignments of \<open>FEHESP32::reset\<close>, in the order of the source.\<close>

definition FEHESP32_reset :: "bool \<Rightarrow> world \<Rightarrow> world" where
  "FEHESP32_reset factoryReset w =
     (ESP32_reset factoryReset w)
       \<lparr>s_version := \<lparr>major = 0, minor = 0, patch = 0, partition = 0xFF\<rparr>,
        s_connected := False,
        s_flashing := False,
        s_flashComplete := False,
        s_flashError := False,
        s_partitionValid := False,
        s_validatedPartition := 0xFF,
        s_lastAckedCmd := 0x00,
        s_wifiConnectResult := False,
        s_wifiConnectSuccess := False,
        s_rcsConnected := False,
        s_bleState := BLE_STATE_OFF\<rparr>"

text \<open>
  The polling loop of \<open>waitForAck\<close>. The elapsed time is computed on 32 bits, and a
  timeout of \<open>0xFFFFFFFF\<close> is never reached in steps of 10 ms: the loop is a partial
  function, \<open>None\<close> standing for a wait that does not end.
\<close>

partial_function (option) waitForAck_loop ::
    "u8 \<Rightarrow> u32 \<Rightarrow> u32 \<Rightarrow> world \<Rightarrow> (bool \<times> world) option" where
  "waitForAck_loop cmdId timeoutMs startTime w =
     (if millis w - startTime < timeoutMs
      then
        let w1 = FEHESP32_poll w
        in if s_lastAckedCmd w1 = cmdId then Some (True, w1)
           else waitForAck_loop cmdId timeoutMs startTime (delay 10 w1)
      else Some (False, w))"

declare waitForAck_loop.simps [code]

definition FEHESP32_waitForAck :: "u8 \<Rightarrow> u32 \<Rightarrow> world \<Rightarrow> (bool \<times> world) option" where
  "FEHESP32_waitForAck cmdId timeoutMs w =
     (let w0 = w\<lparr>s_lastAckedCmd := 0x00\<rparr>
      in waitForAck_loop cmdId timeoutMs (millis w0) w0)"

text \<open>The state after \<open>FEHESP32::init\<close> at start-up.\<close>

definition init_world :: world where
  "init_world = FEHESP32_init boot_world"

text \<open>
  The number of payload bytes that \<open>handleMessage\<close> requires before it reads the payload
  of a command (its tests \<^verbatim>\<open>len >= 5\<close>, \<^verbatim>\<open>len >= 8\<close>, \<^verbatim>\<open>len >= 12\<close> and \<^verbatim>\<open>len > 4\<close>, less
  the four header bytes); 0 for the commands it handles without reading any.
\<close>

definition fixedFields :: "u8 \<Rightarrow> nat" where
  "fixedFields cmd =
     (if cmd = RSP_ACK then 1
      else if cmd = RSP_PONG then 4
      else if cmd = NOTIFY_DEBUG then 1
      else if cmd = NOTIFY_RCS_DATA then 1
      else if cmd = NOTIFY_FLASH_PROGRESS then 8
      else if cmd = NOTIFY_FLASH_FAILED then 1
      else if cmd = RSP_PARTITION_VALID then 1
      else if cmd = RSP_BLE_STATUS then 1
      else if cmd = NOTIFY_BLE_CLIENT_EVENT then 1
      else 0)"

text \<open>
  The link while a firmware download runs (a progress notification of 100 bytes out of
  1000 has been received), and after the download has then failed with error code 5.
\<close>

definition flashing_world :: world where
  "flashing_world =
     FEHESP32_handleMessage [0xAA, 0x55, 0xB1, 8, 100, 0, 0, 0, 0xE8, 3, 0, 0] 12 init_world"

definition after_flash_failure :: world where
  "after_flash_failure = FEHESP32_handleMessage [0xAA, 0x55, 0xB3, 1, 5] 5 flashing_world"

text \<open>A received buffer with the sync marker and a length byte of \<open>0xFF\<close>.\<close>

definition oversized_frame :: "u8 list" where
  "oversized_frame = [0xAA, 0x55, 0x80, 0xFF, 7] @ replicate 43 0"

text \<open>
  What the co-processor answers at the \<open>k\<close>-th transfer from now: the \<open>k\<close>-th queued
  response, over the 48 bytes of a transfer, and all zeros once the queue is used up.
\<close>

definition peerResponse :: "world \<Rightarrow> nat \<Rightarrow> u8 list" where
  "peerResponse w k =
     (if k < length (spi_peer w)
      then take ESP32_TX_BUF_LEN (spi_peer w ! k @ replicate ESP32_TX_BUF_LEN 0)
      else replicate ESP32_TX_BUF_LEN 0)"

text \<open>
  A received buffer that \<open>handleMessage\<close> takes for an acknowledgement of \<open>cmdId\<close>: sync
  marker, \<open>RSP_ACK\<close>, a length byte of at least one, and \<open>cmdId\<close> as first payload byte.
\<close>

definition isAckFrame :: "u8 \<Rightarrow> u8 list \<Rightarrow> bool" where
  "isAckFrame cmdId rx \<longleftrightarrow>
     rx ! 0 = UPDATER_PROTOCOL_SYNC_BYTE_1 \<and> rx ! 1 = UPDATER_PROTOCOL_SYNC_BYTE_2 \<and>
     rx ! 2 = RSP_ACK \<and> rx ! 3 \<noteq> 0 \<and> rx ! 4 = cmdId"

text \<open>
  The \<open>k\<close>-th poll from now processes an acknowledgement of \<open>cmdId\<close>: the transport is
  initialised, the driver's handler is registered, and the answer is such a frame.
\<close>

definition ackProcessedAt :: "world \<Rightarrow> u8 \<Rightarrow> nat \<Rightarrow> bool" where
  "ackProcessedAt w cmdId k \<longleftrightarrow>
     s_isInitialized w \<and> s_rxCallback w = Some Ptr_FEHESP32_handleMessage \<and>
     isAckFrame cmdId (peerResponse w k)"

text \<open>
  A link with a stale acknowledgement of command 6 in the slot, whose peer answers the
  second transfer with an acknowledgement of command 5.
\<close>

definition ack_world :: world where
  "ack_world = init_world\<lparr>s_lastAckedCmd := 6, spi_peer := [[], [0xAA, 0x55, 0x80, 1, 5]]\<rparr>"



section \<open>Scheduler: the loops on the array\<close>

lemma subtractElapsed_length [simp]: "length (subtractElapsed c n i ev) = length ev"
  by (induction c n i ev rule: subtractElapsed.induct) (subst subtractElapsed.simps, simp)

lemma subtractElapsed_nth:
  "k < length ev \<Longrightarrow>
   subtractElapsed c n i ev ! k = (if i \<le> k \<and> k < n then rebase c (ev ! k) else ev ! k)"
proof (induction c n i ev rule: subtractElapsed.induct)
  case (1 c n i ev)
  show ?case
  proof (cases "i < n")
    case True
    show ?thesis
    proof (cases "k = i")
      case eq: True
      with True 1 show ?thesis
        by (subst subtractElapsed.simps) (simp add: rebase_def)
    next
      case False
      with True 1 show ?thesis
        by (subst subtractElapsed.simps) (auto simp: rebase_def nth_list_update)
    qed
  next
    case False
    then show ?thesis
      by (subst subtractElapsed.simps) auto
  qed
qed

lemma take_subtractElapsed:
  "n \<le> length ev \<Longrightarrow> take n (subtractElapsed c n 0 ev) = map (rebase c) (take n ev)"
  by (rule nth_equalityI) (simp_all add: subtractElapsed_nth)

lemma shiftLeft_length [simp]: "length (shiftLeft n i ev) = length ev"
  by (induction n i ev rule: shiftLeft.induct) (subst shiftLeft.simps, simp)

lemma shiftLeft_nth:
  "k < length ev \<Longrightarrow> 1 \<le> i \<Longrightarrow>
   shiftLeft n i ev ! k = (if i - 1 \<le> k \<and> k + 1 < n then ev ! (k + 1) else ev ! k)"
proof (induction n i ev rule: shiftLeft.induct)
  case (1 n i ev)
  show ?case
  proof (cases "i < n")
    case True
    then show ?thesis
      using 1 by (subst shiftLeft.simps) (auto simp: nth_list_update)
  next
    case False
    then show ?thesis
      by (subst shiftLeft.simps) auto
  qed
qed

lemma take_shiftLeft:
  "i < n \<Longrightarrow> n \<le> length ev \<Longrightarrow>
   take (n - 1) (shiftLeft n (i + 1) ev) = take i (take n ev) @ drop (i + 1) (take n ev)"
proof (rule nth_equalityI)
  show "length (take (n - 1) (shiftLeft n (i + 1) ev)) = length (take i (take n ev) @ drop (i + 1) (take n ev))"
    if "i < n" "n \<le> length ev"
    using that by simp
next
  fix k
  assume "i < n" "n \<le> length ev" and k: "k < length (take (n - 1) (shiftLeft n (i + 1) ev))"
  then have "k < n - 1" "k < length ev"
    by simp_all
  with \<open>i < n\<close> \<open>n \<le> length ev\<close> show "take (n - 1) (shiftLeft n (i + 1) ev) ! k = (take i (take n ev) @ drop (i + 1) (take n ev)) ! k"
    by (auto simp: shiftLeft_nth nth_append)
qed

lemma shiftRight_length: "shiftRight t i ev = (j, ev') \<Longrightarrow> length ev' = length ev"
proof (induction t i ev rule: shiftRight.induct)
  case (1 t i ev)
  then show ?case
    by (subst (asm) (2) shiftRight.simps) (auto split: if_splits)
qed

lemma shiftRight_bounds: "shiftRight t i ev = (j, ev') \<Longrightarrow> - 1 \<le> i \<Longrightarrow> - 1 \<le> j \<and> j \<le> i"
proof (induction t i ev rule: shiftRight.induct)
  case (1 t i ev)
  then show ?case
    by (subst (asm) (2) shiftRight.simps) (auto split: if_splits)
qed

lemma shiftRight_nth:
  "shiftRight t i ev = (j, ev') \<Longrightarrow> - 1 \<le> i \<Longrightarrow> nat (i + 1) < length ev \<Longrightarrow> k < length ev \<Longrightarrow>
   ev' ! k = (if nat (j + 1) < k \<and> k \<le> nat (i + 1) then ev ! (k - 1) else ev ! k)"
proof (induction t i ev arbitrary: k rule: shiftRight.induct)
  case (1 t i ev)
  show ?case
  proof (cases "0 \<le> i \<and> t < ticks (ev ! nat i)")
    case True
    then have rec: "shiftRight t (i - 1) (ev[nat (i + 1) := ev ! nat i]) = (j, ev')"
      using "1.prems"(1) by (subst (asm) shiftRight.simps) simp
    have b: "- 1 \<le> j \<and> j \<le> i - 1"
      using shiftRight_bounds [OF rec] True by simp
    have "ev' ! k = (if nat (j + 1) < k \<and> k \<le> nat (i - 1 + 1) then (ev[nat (i + 1) := ev ! nat i]) ! (k - 1)
        else (ev[nat (i + 1) := ev ! nat i]) ! k)"
      using "1.IH" [OF True rec, of k] True "1.prems" by simp
    then show ?thesis
      using True b "1.prems" by (auto simp: nth_list_update nat_add_distrib nat_diff_distrib)
  next
    case False
    then show ?thesis
      using "1.prems" by (subst (asm) shiftRight.simps) auto
  qed
qed

lemma shiftRight_greater:
  "shiftRight t i ev = (j, ev') \<Longrightarrow> j < k \<Longrightarrow> k \<le> i \<Longrightarrow> - 1 \<le> i \<Longrightarrow> nat (i + 1) < length ev \<Longrightarrow> t < ticks (ev ! nat k)"
proof (induction t i ev rule: shiftRight.induct)
  case (1 t i ev)
  show ?case
  proof (cases "0 \<le> i \<and> t < ticks (ev ! nat i)")
    case True
    then have rec: "shiftRight t (i - 1) (ev[nat (i + 1) := ev ! nat i]) = (j, ev')"
      using "1.prems"(1) by (subst (asm) shiftRight.simps) simp
    show ?thesis
    proof (cases "k = i")
      case True
      with \<open>0 \<le> i \<and> t < ticks (ev ! nat i)\<close> show ?thesis by simp
    next
      case False
      then have "t < ticks ((ev[nat (i + 1) := ev ! nat i]) ! nat k)"
        using "1.IH" [OF True rec] "1.prems" True by simp
      then show ?thesis
        using False "1.prems" True by (simp add: nth_list_update split: if_splits)
    qed
  next
    case False
    then show ?thesis
      using "1.prems" by (subst (asm) shiftRight.simps) auto
  qed
qed

lemma shiftRight_stop:
  "shiftRight t i ev = (j, ev') \<Longrightarrow> 0 \<le> j \<Longrightarrow> - 1 \<le> i \<Longrightarrow> nat (i + 1) < length ev \<Longrightarrow> ticks (ev ! nat j) \<le> t"
proof (induction t i ev rule: shiftRight.induct)
  case (1 t i ev)
  show ?case
  proof (cases "0 \<le> i \<and> t < ticks (ev ! nat i)")
    case True
    then have rec: "shiftRight t (i - 1) (ev[nat (i + 1) := ev ! nat i]) = (j, ev')"
      using "1.prems"(1) by (subst (asm) shiftRight.simps) simp
    have b: "- 1 \<le> j \<and> j \<le> i - 1"
      using shiftRight_bounds [OF rec] True by simp
    have "ticks ((ev[nat (i + 1) := ev ! nat i]) ! nat j) \<le> t"
      using "1.IH" [OF True rec] "1.prems" True by simp
    then show ?thesis
      using b "1.prems" True by (simp add: nth_list_update split: if_splits)
  next
    case False
    then show ?thesis
      using "1.prems" by (subst (asm) shiftRight.simps) (auto split: if_splits)
  qed
qed


lemma insert_shape:
  assumes n: "n < length ev" and sr: "shiftRight t (int n - 1) ev = (j, ev')"
  shows "take (n + 1) (ev'[nat (j + 1) := e]) =
         take (nat (j + 1)) (take n ev) @ e # drop (nat (j + 1)) (take n ev)"
proof -
  define m where "m = nat (j + 1)"
  define P where "P = take n ev"
  have b: "- 1 \<le> j \<and> j \<le> int n - 1"
    using shiftRight_bounds [OF sr] by simp
  have m: "m \<le> n"
    using b unfolding m_def by linarith
  have len: "length ev' = length ev"
    using shiftRight_length [OF sr] .
  have lP: "length P = n"
    using n by (simp add: P_def)
  have lm: "length (take m P) = m"
    using m lP by simp
  have nth: "ev' ! k = (if m < k then ev ! (k - 1) else ev ! k)" if "k \<le> n" for k
  proof -
    have "nat (int n - 1 + 1) = n"
      by simp
    then show ?thesis
      using shiftRight_nth [OF sr, of k] n that unfolding m_def by simp
  qed
  have "take (n + 1) (ev'[m := e]) = take m P @ e # drop m P"
  proof (rule nth_equalityI)
    show "length (take (n + 1) (ev'[m := e])) = length (take m P @ e # drop m P)"
      using n m len lP by simp
    fix k
    assume "k < length (take (n + 1) (ev'[m := e]))"
    then have k: "k \<le> n"
      by simp
    consider "k < m" | "k = m" | "m < k"
      by linarith
    then show "take (n + 1) (ev'[m := e]) ! k = (take m P @ e # drop m P) ! k"
    proof cases
      case 1
      then have "(take m P @ e # drop m P) ! k = P ! k"
        using lm by (simp add: nth_append)
      also have "\<dots> = ev ! k"
        using 1 m by (simp add: P_def)
      also have "\<dots> = ev' ! k"
        using nth [OF k] 1 by simp
      finally show ?thesis
        using 1 k by simp
    next
      case 2
      then have "(take m P @ e # drop m P) ! k = e"
        using lm by (simp add: nth_append)
      then show ?thesis
        using 2 k n len by simp
    next
      case 3
      define d where "d = k - m - 1"
      have d: "k = m + Suc d"
        using 3 by (simp add: d_def)
      have "(take m P @ e # drop m P) ! k = drop m P ! d"
        using lm d by (simp add: nth_append)
      also have "\<dots> = P ! (m + d)"
        using d k lP by simp
      also have "\<dots> = ev ! (m + d)"
        using d k by (simp add: P_def)
      also have "\<dots> = ev' ! k"
        using nth [OF k] 3 d by simp
      finally show ?thesis
        using 3 k by simp
    qed
  qed
  then show ?thesis
    unfolding m_def P_def .
qed

lemma sorted_rebase:
  "sorted (map ticks P) \<Longrightarrow> sorted (map ticks (map (rebase c) P))"
proof -
  have mono: "ticks (rebase c a) \<le> ticks (rebase c b)" if "ticks a \<le> ticks b" for a b
    using that by (auto simp: rebase_def word_le_nat_alt word_less_nat_alt unat_sub_if')
  assume "sorted (map ticks P)"
  then have "sorted_wrt (\<lambda>a b. ticks a \<le> ticks b) P"
    by (simp add: sorted_map)
  then have "sorted_wrt (\<lambda>a b. ticks (rebase c a) \<le> ticks (rebase c b)) P"
    by (rule sorted_wrt_mono_rel [rotated]) (simp add: mono)
  then show ?thesis
    by (simp add: sorted_map sorted_wrt_map)
qed

lemma insert_sorted:
  assumes n: "n < length ev" and sr: "shiftRight t (int n - 1) ev = (j, ev')"
    and srt: "sorted (map ticks (take n ev))" and e: "ticks e = t"
  shows "sorted (map ticks (take (n + 1) (ev'[nat (j + 1) := e])))"
proof -
  define m where "m = nat (j + 1)"
  define P where "P = take n ev"
  have b: "- 1 \<le> j \<and> j \<le> int n - 1"
    using shiftRight_bounds [OF sr] by simp
  have m: "m \<le> n"
    using b unfolding m_def by linarith
  have lP: "length P = n"
    using n by (simp add: P_def)
  have srtP: "sorted (map ticks P)"
    using srt by (simp add: P_def)
  have left: "ticks x \<le> t" if "x \<in> set (take m P)" for x
  proof -
    from that obtain k where "k < length (take m P)" "x = take m P ! k"
      by (metis in_set_conv_nth)
    then have k: "k < m" "x = P ! k"
      using m lP by simp_all
    then have j0: "0 \<le> j"
      unfolding m_def by linarith
    then have mj: "m = nat j + 1"
      unfolding m_def by linarith
    have "ticks (ev ! nat j) \<le> t"
      using shiftRight_stop [OF sr j0] n by simp
    then have "ticks (P ! nat j) \<le> t"
      using mj m by (simp add: P_def)
    moreover have "map ticks P ! k \<le> map ticks P ! nat j"
      using srtP k mj m lP by (intro sorted_nth_mono) simp_all
    then have "ticks (P ! k) \<le> ticks (P ! nat j)"
      using k mj m lP by simp
    ultimately show ?thesis
      using k by simp
  qed
  have right: "t < ticks x" if "x \<in> set (drop m P)" for x
  proof -
    from that obtain k where "k < length (drop m P)" "x = drop m P ! k"
      by (metis in_set_conv_nth)
    then have k: "m + k < n" "x = P ! (m + k)"
      using lP by simp_all
    have "j < int (m + k)" "int (m + k) \<le> int n - 1"
      using k b unfolding m_def by linarith+
    then have "t < ticks (ev ! nat (int (m + k)))"
      using n by (intro shiftRight_greater [OF sr]) simp_all
    then have "t < ticks (ev ! (m + k))"
      by (simp only: nat_int)
    then show ?thesis
      using k by (simp add: P_def)
  qed
  define A B where "A = take m P" and "B = drop m P"
  have "A @ B = P"
    unfolding A_def B_def by (rule append_take_drop_id)
  then have "sorted (map ticks (A @ B))"
    using srtP by simp
  then have AB: "sorted (map ticks A)" "sorted (map ticks B)"
    by (simp_all add: sorted_append)
  have l: "\<forall>x\<in>set A. ticks x \<le> ticks e" and r: "\<forall>y\<in>set B. ticks e \<le> ticks y"
    using left right e by (auto simp: A_def B_def less_imp_le)
  have "\<forall>x\<in>set A. \<forall>y\<in>set B. ticks x \<le> ticks y"
    using l r by (meson order_trans)
  then have "sorted (map ticks (A @ e # B))"
    using AB l r by (simp add: sorted_append)
  then show ?thesis
    unfolding A_def B_def m_def P_def by (simp only: insert_shape [OF n sr])
qed

lemma cancelInner_shape:
  "cancelInner cb i (ev, n) = (ev', n') \<Longrightarrow> i \<le> n \<Longrightarrow> n \<le> length ev \<Longrightarrow>
   length ev' = length ev \<and> n' \<le> n \<and>
   take n' ev' = take i (take n ev) @ dropWhile (\<lambda>e. callback e = cb) (drop i (take n ev))"
proof (induction cb i "(ev, n)" arbitrary: ev n rule: cancelInner.induct)
  case (1 cb i ev n)
  define P where "P = take n ev"
  have lP: "length P = n"
    using "1.prems" by (simp add: P_def)
  show ?case
  proof (cases "i < n \<and> callback (ev ! i) = cb")
    case True
    then have rec: "cancelInner cb i (shiftLeft n (i + 1) ev, n - 1) = (ev', n')"
      using "1.prems"(1) by (subst (asm) cancelInner.simps) simp
    have pre: "i \<le> n - 1" "n - 1 \<le> length (shiftLeft n (i + 1) ev)"
      using True "1.prems" by auto
    have sl: "take (n - 1) (shiftLeft n (i + 1) ev) = take i P @ drop (i + 1) P"
      unfolding P_def using take_shiftLeft True "1.prems" by simp
    have ih: "length ev' = length (shiftLeft n (i + 1) ev) \<and> n' \<le> n - 1 \<and>
        take n' ev' = take i (take i P @ drop (i + 1) P) @
          dropWhile (\<lambda>e. callback e = cb) (drop i (take i P @ drop (i + 1) P))"
      using "1.hyps" [OF True rec pre] unfolding sl .
    have li: "length (take i P) = i"
      using True lP by simp
    have hd: "drop i P = ev ! i # drop (i + 1) P"
      using True lP "1.prems" by (simp add: P_def Cons_nth_drop_Suc [symmetric])
    have "take n' ev' = take i P @ dropWhile (\<lambda>e. callback e = cb) (drop (i + 1) P)"
      using ih li by simp
    also have "\<dots> = take i P @ dropWhile (\<lambda>e. callback e = cb) (drop i P)"
      using True by (simp add: hd)
    finally have "take n' ev' = take i P @ dropWhile (\<lambda>e. callback e = cb) (drop i P)" .
    moreover have "length ev' = length ev" "n' \<le> n"
      using ih by auto
    ultimately show ?thesis
      unfolding P_def by blast
  next
    case False
    then have "(ev, n) = (ev', n')"
      using "1.prems"(1) by (subst (asm) cancelInner.simps) auto
    then have res: "ev' = ev" "n' = n"
      by simp_all
    have "dropWhile (\<lambda>e. callback e = cb) (drop i P) = drop i P"
    proof (cases "i < n")
      case True
      with False have "callback (ev ! i) \<noteq> cb"
        by simp
      moreover have "drop i P = ev ! i # drop (i + 1) P"
        using True lP "1.prems" by (simp add: P_def Cons_nth_drop_Suc [symmetric])
      ultimately show ?thesis
        by simp
    next
      case False
      then show ?thesis
        using lP by simp
    qed
    then have "take i P @ dropWhile (\<lambda>e. callback e = cb) (drop i P) = P"
      by simp
    then have "take n' ev' = take i P @ dropWhile (\<lambda>e. callback e = cb) (drop i P)"
      using res by (simp add: P_def)
    then show ?thesis
      unfolding P_def using res by simp
  qed
qed

lemma filter_dropWhile_not:
  "filter (\<lambda>e. callback e \<noteq> cb) (dropWhile (\<lambda>e. callback e = cb) xs) =
   filter (\<lambda>e. callback e \<noteq> cb) xs"
  by (induction xs) auto

lemma cancelOuter_shape:
  "cancelOuter cb i (ev, n) = (ev', n') \<Longrightarrow> n \<le> length ev \<Longrightarrow>
   length ev' = length ev \<and> n' \<le> n \<and>
   take n' ev' = take i (take n ev) @ filter (\<lambda>e. callback e \<noteq> cb) (drop i (take n ev))"
proof (induction cb i "(ev, n)" arbitrary: ev n rule: cancelOuter.induct)
  case (1 cb i ev n)
  define P where "P = take n ev"
  have lP: "length P = n"
    using "1.prems" by (simp add: P_def)
  show ?case
  proof (cases "i < n")
    case True
    obtain ev1 n1 where inner: "cancelInner cb i (ev, n) = (ev1, n1)"
      by (cases "cancelInner cb i (ev, n)")
    then have rec: "cancelOuter cb (i + 1) (ev1, n1) = (ev', n')"
      using "1.prems"(1) True by (subst (asm) cancelOuter.simps) simp
    define D where "D = dropWhile (\<lambda>e. callback e = cb) (drop i P)"
    have sh: "length ev1 = length ev \<and> n1 \<le> n \<and> take n1 ev1 = take i P @ D"
      unfolding P_def D_def using cancelInner_shape [OF inner] True "1.prems" by simp
    have n1: "n1 \<le> length ev1"
      using sh "1.prems" by simp
    have ih: "length ev' = length ev1 \<and> n' \<le> n1 \<and>
        take n' ev' = take (i + 1) (take i P @ D) @
          filter (\<lambda>e. callback e \<noteq> cb) (drop (i + 1) (take i P @ D))"
      using "1.hyps" [OF True inner rec n1] sh by simp
    have li: "length (take i P) = i"
      using True lP by simp
    have flt: "filter (\<lambda>e. callback e \<noteq> cb) D = filter (\<lambda>e. callback e \<noteq> cb) (drop i P)"
      unfolding D_def by (rule filter_dropWhile_not)
    have "take (i + 1) (take i P @ D) @ filter (\<lambda>e. callback e \<noteq> cb) (drop (i + 1) (take i P @ D))
        = take i P @ filter (\<lambda>e. callback e \<noteq> cb) D"
    proof (cases D)
      case Nil
      then show ?thesis
        using li by simp
    next
      case (Cons x xs)
      then have "callback x \<noteq> cb"
        using hd_dropWhile [of "\<lambda>e. callback e = cb" "drop i P"] by (auto simp: D_def)
      then show ?thesis
        using li Cons by simp
    qed
    then have "take n' ev' = take i P @ filter (\<lambda>e. callback e \<noteq> cb) (drop i P)"
      using ih flt by simp
    moreover have "length ev' = length ev" "n' \<le> n"
      using ih sh by auto
    ultimately show ?thesis
      unfolding P_def by blast
  next
    case False
    then have "(ev, n) = (ev', n')"
      using "1.prems"(1) by (subst (asm) cancelOuter.simps) simp
    then have "ev' = ev" "n' = n"
      by simp_all
    then show ?thesis
      using False "1.prems" by simp
  qed
qed


lemma pending_schedulerTimerSetup [simp]:
  "pending (schedulerTimerSetup s) = pending s"
  "eventData (schedulerTimerSetup s) = eventData s"
  "numEventsPending (schedulerTimerSetup s) = numEventsPending s"
  by (simp_all add: schedulerTimerSetup_def pending_def)

lemma schedulerTimerDisable_fields [simp]:
  "eventData (schedulerTimerDisable s) = eventData s"
  "numEventsPending (schedulerTimerDisable s) = numEventsPending s"
  "TCNT4 (schedulerTimerDisable s) = TCNT4 s"
  by (simp_all add: schedulerTimerDisable_def)

lemma queue_inv_schedulerTimerSetup [simp]:
  "queue_inv (schedulerTimerSetup s) = queue_inv s"
  by (simp add: queue_inv_def)

lemma scheduleEvent_accept:
  assumes lt: "numEventsPending s < SCHEDULER_MAX_EVENTS"
    and len: "numEventsPending s < length (eventData s)"
  shows "\<exists>m\<le>numEventsPending s.
           pending (snd (scheduleEvent cb d s)) =
             take m (map (rebase (TCNT4 s)) (pending s)) @
             \<lparr>callback = cb, ticks = (if d = 0 then 1 else if d - 1 = 0 then 1 else d - 1)\<rparr> #
             drop m (map (rebase (TCNT4 s)) (pending s))"
    and "fst (scheduleEvent cb d s)"
    and "numEventsPending (snd (scheduleEvent cb d s)) = numEventsPending s + 1"
    and "length (eventData (snd (scheduleEvent cb d s))) = length (eventData s)"
    and "sorted (map ticks (pending s)) \<Longrightarrow> sorted (map ticks (pending (snd (scheduleEvent cb d s))))"
proof -
  define t where "t = (if d = 0 then 1 else if d - 1 = 0 then 1 else d - 1)"
  define P where "P = map (rebase (TCNT4 s)) (pending s)"
  define n where "n = numEventsPending s"
  define ev1 where "ev1 = subtractElapsed (TCNT4 s) n 0 (eventData s)"
  define e where "e = \<lparr>callback = cb, ticks = t\<rparr>"
  obtain j ev2 where sr: "shiftRight t (int n - 1) ev1 = (j, ev2)"
    by (cases "shiftRight t (int n - 1) ev1")
  have t: "(if (if 1 \<le> d then d - 1 else d) = 0 then 1 else (if 1 \<le> d then d - 1 else d)) = t"
  proof -
    have "1 \<le> d \<longleftrightarrow> d \<noteq> 0"
      by (simp add: word_le_nat_alt Suc_le_eq unat_gt_0)
    then show ?thesis
      by (simp add: t_def)
  qed
  have res: "scheduleEvent cb d s =
      (True, schedulerTimerSetup
         ((schedulerTimerDisable s)\<lparr>eventData := ev2[nat (j + 1) := e], numEventsPending := n + 1\<rparr>))"
    using lt sr by (simp add: scheduleEvent_def Let_def t n_def [symmetric] ev1_def [symmetric] e_def)
  have n1: "n < length ev1"
    using len by (simp add: ev1_def n_def)
  have P: "take n ev1 = P"
    using len by (simp add: ev1_def n_def P_def pending_def take_subtractElapsed)
  have b: "- 1 \<le> j \<and> j \<le> int n - 1"
    using shiftRight_bounds [OF sr] by simp
  have pend: "pending (snd (scheduleEvent cb d s)) = take (n + 1) (ev2[nat (j + 1) := e])"
    by (simp add: res pending_def)
  have "nat (j + 1) \<le> n"
    using b by linarith
  moreover have "pending (snd (scheduleEvent cb d s)) = take (nat (j + 1)) P @ e # drop (nat (j + 1)) P"
    using insert_shape [OF n1 sr, of e] by (simp only: pend P)
  ultimately show "\<exists>m\<le>numEventsPending s.
           pending (snd (scheduleEvent cb d s)) =
             take m (map (rebase (TCNT4 s)) (pending s)) @
             \<lparr>callback = cb, ticks = (if d = 0 then 1 else if d - 1 = 0 then 1 else d - 1)\<rparr> #
             drop m (map (rebase (TCNT4 s)) (pending s))"
    unfolding n_def e_def t_def P_def by blast
  show "fst (scheduleEvent cb d s)"
    by (simp add: res)
  show "numEventsPending (snd (scheduleEvent cb d s)) = numEventsPending s + 1"
    by (simp add: res n_def)
  show "length (eventData (snd (scheduleEvent cb d s))) = length (eventData s)"
    using shiftRight_length [OF sr] by (simp add: res ev1_def)
  show "sorted (map ticks (pending (snd (scheduleEvent cb d s))))" if "sorted (map ticks (pending s))"
  proof -
    have "sorted (map ticks (take n ev1))"
      unfolding P P_def using that by (rule sorted_rebase)
    then show ?thesis
      using insert_sorted [OF n1 sr _ , of e] by (simp add: pend e_def)
  qed
qed

lemma cancelEvents_pending:
  assumes len: "numEventsPending s \<le> length (eventData s)"
  shows "pending (cancelEvents cb s) =
           filter (\<lambda>e. callback e \<noteq> cb) (map (rebase (TCNT4 s)) (pending s))"
    and "numEventsPending (cancelEvents cb s) \<le> numEventsPending s"
    and "length (eventData (cancelEvents cb s)) = length (eventData s)"
proof -
  define n where "n = numEventsPending s"
  define ev1 where "ev1 = subtractElapsed (TCNT4 s) n 0 (eventData s)"
  obtain ev2 n2 where co: "cancelOuter cb 0 (ev1, n) = (ev2, n2)"
    by (cases "cancelOuter cb 0 (ev1, n)")
  have res: "cancelEvents cb s =
      schedulerTimerSetup ((schedulerTimerDisable s)\<lparr>eventData := ev2, numEventsPending := n2\<rparr>)"
    using co by (simp add: cancelEvents_def Let_def n_def [symmetric] ev1_def [symmetric])
  have n1: "n \<le> length ev1"
    using len by (simp add: ev1_def n_def)
  have P: "take n ev1 = map (rebase (TCNT4 s)) (pending s)"
    using len by (simp add: ev1_def n_def pending_def take_subtractElapsed)
  have sh: "length ev2 = length ev1 \<and> n2 \<le> n \<and>
      take n2 ev2 = take 0 (take n ev1) @ filter (\<lambda>e. callback e \<noteq> cb) (drop 0 (take n ev1))"
    using cancelOuter_shape [OF co n1] .
  show "pending (cancelEvents cb s) =
           filter (\<lambda>e. callback e \<noteq> cb) (map (rebase (TCNT4 s)) (pending s))"
    using sh by (simp add: res pending_def P)
  show "numEventsPending (cancelEvents cb s) \<le> numEventsPending s"
    using sh by (simp add: res n_def)
  show "length (eventData (cancelEvents cb s)) = length (eventData s)"
    using sh by (simp add: res ev1_def)
qed

lemma queue_inv_scheduleEvent:
  assumes "queue_inv s"
  shows "queue_inv (snd (scheduleEvent cb d s))"
proof (cases "numEventsPending s < SCHEDULER_MAX_EVENTS")
  case True
  then have len: "numEventsPending s < length (eventData s)"
    using assms by (simp add: queue_inv_def)
  show ?thesis
    using assms True scheduleEvent_accept(3-5) [OF True len, of cb d]
    by (simp add: queue_inv_def)
next
  case False
  then show ?thesis
    using assms by (simp add: scheduleEvent_def Let_def)
qed

lemma queue_inv_cancelEvents:
  assumes "queue_inv s"
  shows "queue_inv (cancelEvents cb s)"
proof -
  have len: "numEventsPending s \<le> length (eventData s)"
    using assms by (simp add: queue_inv_def)
  have "sorted (map ticks (map (rebase (TCNT4 s)) (pending s)))"
    using assms by (intro sorted_rebase) (simp add: queue_inv_def)
  then have "sorted (map ticks (pending (cancelEvents cb s)))"
    unfolding cancelEvents_pending(1) [OF len] by (rule sorted_filter)
  then show ?thesis
    using assms cancelEvents_pending(2,3) [OF len, of cb] by (simp add: queue_inv_def)
qed

lemma queue_inv_subtract:
  assumes "queue_inv s"
  shows "queue_inv (s\<lparr>eventData := subtractElapsed c (numEventsPending s) 0 (eventData s)\<rparr>)"
proof -
  have len: "numEventsPending s \<le> length (eventData s)"
    using assms by (simp add: queue_inv_def)
  have "sorted (map ticks (map (rebase c) (pending s)))"
    using assms by (intro sorted_rebase) (simp add: queue_inv_def)
  then show ?thesis
    using assms len by (simp add: queue_inv_def pending_def take_subtractElapsed)
qed

lemma pop_pending:
  assumes "numEventsPending s \<le> length (eventData s)" "0 < numEventsPending s"
  shows "pending (s\<lparr>eventData := shiftLeft (numEventsPending s) 1 (eventData s),
                    numEventsPending := numEventsPending s - 1\<rparr>) = tl (pending s)"
proof -
  have "take (numEventsPending s - 1) (shiftLeft (numEventsPending s) (0 + 1) (eventData s)) =
        take 0 (take (numEventsPending s) (eventData s)) @ drop (0 + 1) (take (numEventsPending s) (eventData s))"
    using assms by (intro take_shiftLeft) simp_all
  then show ?thesis
    by (simp add: pending_def drop_Suc)
qed

lemma queue_inv_pop:
  assumes "queue_inv s" "0 < numEventsPending s"
  shows "queue_inv (s\<lparr>eventData := shiftLeft (numEventsPending s) 1 (eventData s),
                      numEventsPending := numEventsPending s - 1\<rparr>)"
proof -
  have len: "numEventsPending s \<le> length (eventData s)"
    using assms by (simp add: queue_inv_def)
  have "sorted (map ticks (tl (pending s)))"
    using assms(1) by (simp add: queue_inv_def map_tl sorted_tl)
  moreover have "numEventsPending s - 1 \<le> SCHEDULER_MAX_EVENTS"
    using assms(1) unfolding queue_inv_def by linarith
  ultimately show ?thesis
    using assms(1) pop_pending [OF len assms(2)] by (simp add: queue_inv_def)
qed

lemma dispatchDue_inv_aux:
  assumes "dispatchDue run s = Some s'"
  shows "(\<forall>c x. queue_inv x \<longrightarrow> queue_inv (run c x)) \<longrightarrow> queue_inv s \<longrightarrow> queue_inv s'"
proof (rule dispatchDue.raw_induct
    [where P = "\<lambda>r a b. (\<forall>c x. queue_inv x \<longrightarrow> queue_inv (r c x)) \<longrightarrow> queue_inv a \<longrightarrow> queue_inv b",
      OF _ assms])
  fix loop :: "(callback \<Rightarrow> scheduler \<Rightarrow> scheduler) \<Rightarrow> scheduler \<Rightarrow> scheduler option"
    and r a b
  assume IH: "\<And>r a b. loop r a = Some b \<Longrightarrow>
      (\<forall>c x. queue_inv x \<longrightarrow> queue_inv (r c x)) \<longrightarrow> queue_inv a \<longrightarrow> queue_inv b"
    and step: "(if ticks (eventData a ! 0) = 0 \<and> 0 < numEventsPending a
      then loop r (r (callback (eventData a ! 0))
             (a\<lparr>eventData := shiftLeft (numEventsPending a) 1 (eventData a),
                numEventsPending := numEventsPending a - 1\<rparr>))
      else Some a) = Some b"
  show "(\<forall>c x. queue_inv x \<longrightarrow> queue_inv (r c x)) \<longrightarrow> queue_inv a \<longrightarrow> queue_inv b"
  proof (intro impI)
    assume run: "\<forall>c x. queue_inv x \<longrightarrow> queue_inv (r c x)" and inv: "queue_inv a"
    show "queue_inv b"
    proof (cases "ticks (eventData a ! 0) = 0 \<and> 0 < numEventsPending a")
      case True
      let ?s1 = "a\<lparr>eventData := shiftLeft (numEventsPending a) 1 (eventData a),
                    numEventsPending := numEventsPending a - 1\<rparr>"
      have "queue_inv ?s1"
        using queue_inv_pop [OF inv] True by simp
      with run have "queue_inv (r (callback (eventData a ! 0)) ?s1)"
        by simp
      moreover have "loop r (r (callback (eventData a ! 0)) ?s1) = Some b"
        using step True by simp
      ultimately show ?thesis
        using IH run by blast
    next
      case False
      then have "Some a = Some b"
        using step by (simp only: if_False)
      then show ?thesis
        using inv by simp
    qed
  qed
qed

lemma due_pop:
  assumes "queue_inv s" "0 < numEventsPending s" "ticks (eventData s ! 0) = 0"
  shows "due (s\<lparr>eventData := shiftLeft (numEventsPending s) 1 (eventData s),
                 numEventsPending := numEventsPending s - 1\<rparr>) < due s"
proof -
  have len: "numEventsPending s \<le> length (eventData s)"
    using assms by (simp add: queue_inv_def)
  obtain x xs where P: "pending s = x # xs"
    using assms(2) len by (cases "pending s") (auto simp: pending_def)
  then have "x = eventData s ! 0"
    using assms(2) len by (metis nth_Cons_0 nth_take pending_def)
  then show ?thesis
    using assms(3) P unfolding due_def pop_pending [OF len assms(2)] by simp
qed

lemma dispatchDue_total:
  assumes run: "\<And>c x. queue_inv x \<Longrightarrow> queue_inv (run c x) \<and> due (run c x) \<le> due x"
  shows "queue_inv s \<Longrightarrow> \<exists>s'. dispatchDue run s = Some s'"
proof (induction "due s" arbitrary: s rule: less_induct)
  case less
  show ?case
  proof (cases "ticks (eventData s ! 0) = 0 \<and> 0 < numEventsPending s")
    case True
    let ?s1 = "s\<lparr>eventData := shiftLeft (numEventsPending s) 1 (eventData s),
                  numEventsPending := numEventsPending s - 1\<rparr>"
    let ?x = "run (callback (eventData s ! 0)) ?s1"
    have inv1: "queue_inv ?s1"
      using queue_inv_pop [OF less.prems] True by simp
    have "due ?x \<le> due ?s1" "queue_inv ?x"
      using run [OF inv1] by simp_all
    moreover have "due ?s1 < due s"
      using due_pop [OF less.prems] True by simp
    ultimately obtain s' where "dispatchDue run ?x = Some s'"
      using less.hyps [of ?x] by auto
    then show ?thesis
      using True by (subst dispatchDue.simps) simp
  next
    case False
    then show ?thesis
      by (subst dispatchDue.simps) auto
  qed
qed

lemma callback_rebase [simp]: "callback (rebase c e) = callback e"
  by (simp add: rebase_def)

lemma rebase_zero [simp]: "rebase 0 e = e"
  by (simp add: rebase_def)

lemma map_rebase_zero [simp]: "map (rebase 0) xs = xs"
  by (induction xs) simp_all


lemma unat_ticks_rebase: "unat (ticks (rebase c e)) = unat (ticks e) - unat c"
  by (auto simp: rebase_def word_less_nat_alt unat_sub_if')

lemma due_times_cancelEvents:
  assumes "numEventsPending s \<le> length (eventData s)"
  shows "map (\<lambda>e. unat (ticks e)) (pending (cancelEvents cb s)) =
         map (\<lambda>e. unat (ticks e) - unat (TCNT4 s)) (filter (\<lambda>e. callback e \<noteq> cb) (pending s))"
proof -
  have "filter (\<lambda>e. callback e \<noteq> cb) (map (rebase (TCNT4 s)) (pending s)) =
      map (rebase (TCNT4 s)) (filter (\<lambda>e. callback e \<noteq> cb) (pending s))"
    by (simp add: filter_map comp_def)
  then show ?thesis
    by (simp add: cancelEvents_pending(1) [OF assms] unat_ticks_rebase comp_def)
qed

section \<open>Scheduler: the calls of the interrupt routine\<close>

















section \<open>Scheduler: time left\<close>

lemma TCNT4_cancelEvents:
  "TCNT4 (cancelEvents cb s) = (if 0 < numEventsPending (cancelEvents cb s) then 0 else TCNT4 s)"
proof -
  obtain ev2 n2 where co:
    "cancelOuter cb 0 (subtractElapsed (TCNT4 s) (numEventsPending s) 0 (eventData s), numEventsPending s) = (ev2, n2)"
    by (cases "cancelOuter cb 0 (subtractElapsed (TCNT4 s) (numEventsPending s) 0 (eventData s), numEventsPending s)")
  have res: "cancelEvents cb s =
      schedulerTimerSetup ((schedulerTimerDisable s)\<lparr>eventData := ev2, numEventsPending := n2\<rparr>)"
    using co by (simp add: cancelEvents_def Let_def)
  show ?thesis
    by (simp add: res schedulerTimerSetup_def)
qed

lemma timeLeft_cancelEvents:
  assumes "numEventsPending s \<le> length (eventData s)"
  shows "timeLeft (cancelEvents cb s) = filter (\<lambda>(c, t). c \<noteq> cb) (timeLeft s)"
proof -
  let ?K = "filter (\<lambda>e. callback e \<noteq> cb) (pending s)"
  have p: "pending (cancelEvents cb s) = map (rebase (TCNT4 s)) ?K"
    by (simp add: cancelEvents_pending(1) [OF assms] filter_map comp_def)
  have rhs: "filter (\<lambda>(c, t). c \<noteq> cb) (timeLeft s) =
      map (\<lambda>e. (callback e, unat (ticks e) - unat (TCNT4 s))) ?K"
    by (simp add: timeLeft_def filter_map comp_def)
  have "numEventsPending (cancelEvents cb s) \<le> length (eventData (cancelEvents cb s))"
    using cancelEvents_pending(2,3) [OF assms, of cb] assms by simp
  then have n: "numEventsPending (cancelEvents cb s) = length ?K"
    using p by (metis length_map length_take min.absorb2 pending_def)
  show ?thesis
  proof (cases "?K = []")
    case True
    then show ?thesis
      unfolding rhs by (simp add: timeLeft_def p)
  next
    case False
    then have "TCNT4 (cancelEvents cb s) = 0"
      using n by (simp add: TCNT4_cancelEvents)
    then show ?thesis
      unfolding rhs by (simp add: timeLeft_def p unat_ticks_rebase comp_def)
  qed
qed

section \<open>Scheduler: capacity\<close>

text \<open>
  Claim C5. With eight events pending, \<open>scheduleEvent\<close> returns false and the scheduler
  state is the one it was called in: the eight entries (callbacks, tick counts, order),
  the pending count and the timer registers are untouched, for every callback and every
  requested delay.
\<close>

theorem scheduleEvent_full_rejected:
  "numEventsPending s = 8 \<Longrightarrow> scheduleEvent cb d s = (False, s)"
  by (simp add: scheduleEvent_def SCHEDULER_MAX_EVENTS_def Let_def)

theorem scheduleEvent_full_rejected_witness:
  "numEventsPending full_queue = 8 \<and> scheduleEvent 9 100 full_queue = (False, full_queue)"
proof -
  have h: "numEventsPending full_queue = 8"
    by (simp add: full_queue_def)
  show ?thesis
    using h scheduleEvent_full_rejected [OF h, of 9 100] by simp
qed

section \<open>Scheduler: the queue invariant\<close>

text \<open>
  Claim C6. The queue invariant (the array has its eight slots, at most eight entries are
  pending, the pending entries are sorted ascending by remaining ticks) is preserved by
  \<open>scheduleEvent\<close>, by \<open>cancelEvents\<close> and by the timer interrupt routine. The interrupt
  routine runs callbacks, which may themselves schedule and cancel: whenever every
  callback preserves the invariant, every state the routine returns satisfies it, and when
  the callbacks moreover do not add due events the routine does return. The subtraction of
  the elapsed ticks never wraps: the remaining ticks afterwards are the former ones minus
  the elapsed count, stopping at zero.
\<close>

theorem queue_inv_preserved:
  assumes "queue_inv s"
  shows "queue_inv (snd (scheduleEvent cb d s)) \<and>
         queue_inv (cancelEvents cb' s) \<and>
         ((\<forall>c x. queue_inv x \<longrightarrow> queue_inv (run c x)) \<longrightarrow>
            (\<forall>s'. ISR_TIMER4_COMPA run s = Some s' \<longrightarrow> queue_inv s')) \<and>
         ((\<forall>c x. queue_inv x \<longrightarrow> queue_inv (run c x) \<and> due (run c x) \<le> due x) \<longrightarrow>
            (\<exists>s'. ISR_TIMER4_COMPA run s = Some s' \<and> queue_inv s')) \<and>
         (\<forall>k<numEventsPending s.
            unat (ticks (subtractElapsed (OCR4A s) (numEventsPending s) 0 (eventData s) ! k)) =
            unat (ticks (eventData s ! k)) - unat (OCR4A s))"
proof (intro conjI impI allI)
  show "queue_inv (snd (scheduleEvent cb d s))"
    using assms by (rule queue_inv_scheduleEvent)
  show "queue_inv (cancelEvents cb' s)"
    using assms by (rule queue_inv_cancelEvents)
  let ?s0 = "s\<lparr>eventData := subtractElapsed (OCR4A s) (numEventsPending s) 0 (eventData s)\<rparr>"
  have inv0: "queue_inv ?s0"
    using assms by (rule queue_inv_subtract)
  show "queue_inv s'"
    if "\<forall>c x. queue_inv x \<longrightarrow> queue_inv (run c x)" "ISR_TIMER4_COMPA run s = Some s'" for s'
  proof -
    from that(2) obtain s2 where "dispatchDue run ?s0 = Some s2" "s' = schedulerTimerSetup s2"
      by (auto simp: ISR_TIMER4_COMPA_def)
    then show ?thesis
      using dispatchDue_inv_aux [of run ?s0 s2] that(1) inv0 by simp
  qed
  show "\<exists>s'. ISR_TIMER4_COMPA run s = Some s' \<and> queue_inv s'"
    if h: "\<forall>c x. queue_inv x \<longrightarrow> queue_inv (run c x) \<and> due (run c x) \<le> due x"
  proof -
    obtain s2 where s2: "dispatchDue run ?s0 = Some s2"
      using dispatchDue_total [of run ?s0] h inv0 by blast
    then have "queue_inv s2"
      using dispatchDue_inv_aux [of run ?s0 s2] h inv0 by blast
    then show ?thesis
      using s2 by (simp add: ISR_TIMER4_COMPA_def)
  qed
  show "unat (ticks (subtractElapsed (OCR4A s) (numEventsPending s) 0 (eventData s) ! k)) =
        unat (ticks (eventData s ! k)) - unat (OCR4A s)" if "k < numEventsPending s" for k
  proof -
    have "k < length (eventData s)"
      using assms that by (simp add: queue_inv_def)
    then show ?thesis
      using that by (auto simp: subtractElapsed_nth rebase_def word_less_nat_alt unat_sub_if')
  qed
qed

theorem queue_inv_preserved_witness:
  "queue_inv sample_queue \<and>
   queue_inv (snd (scheduleEvent 9 250 sample_queue)) \<and>
   queue_inv (cancelEvents 1 sample_queue) \<and>
   (\<exists>s'. ISR_TIMER4_COMPA (\<lambda>c x. x) sample_queue = Some s' \<and> queue_inv s') \<and>
   (\<exists>s'. ISR_TIMER4_COMPA supervisor_callbacks sample_queue = Some s' \<and> queue_inv s')"
proof -
  have h: "queue_inv sample_queue"
    by (simp add: queue_inv_def sample_queue_def pending_def SCHEDULER_MAX_EVENTS_def)
  have quiet: "queue_inv (snd (scheduleEvent 9 250 sample_queue)) \<and>
      queue_inv (cancelEvents 1 sample_queue) \<and>
      (\<exists>s'. ISR_TIMER4_COMPA (\<lambda>c x. x) sample_queue = Some s' \<and> queue_inv s')"
    using queue_inv_preserved [OF h, of 9 250 1 "\<lambda>c x. x"] by simp
  have pres: "queue_inv x \<Longrightarrow> queue_inv (supervisor_callbacks c x)" for c x
    by (simp add: supervisor_callbacks_def queue_inv_scheduleEvent)
  have ret: "ISR_TIMER4_COMPA supervisor_callbacks sample_queue =
      Some \<lparr>eventData =
         [\<lparr>callback = 2, ticks = 70\<rparr>, \<lparr>callback = 1, ticks = 170\<rparr>,
          \<lparr>callback = 1, ticks = 780\<rparr>, \<lparr>callback = 0, ticks = 0\<rparr>,
          \<lparr>callback = 0, ticks = 0\<rparr>, \<lparr>callback = 0, ticks = 0\<rparr>,
          \<lparr>callback = 0, ticks = 0\<rparr>, \<lparr>callback = 0, ticks = 0\<rparr>],
         numEventsPending = 3, TCCR4A = 0, TCCR4B = 13, TIMSK4 = 2, TIFR4 = 0,
         OCR4A = 70, TCNT4 = 0\<rparr>"
    by code_simp
  note isr = queue_inv_preserved [OF h, of 9 250 1 supervisor_callbacks,
      THEN conjunct2, THEN conjunct2, THEN conjunct1, rule_format]
  have "\<exists>s'. ISR_TIMER4_COMPA supervisor_callbacks sample_queue = Some s' \<and> queue_inv s'"
    using isr [OF pres ret] ret by blast
  with h quiet show ?thesis
    by blast
qed

section \<open>Scheduler: the stored delay\<close>



section \<open>Scheduler: cancellation\<close>

text \<open>
  Claim C8. For every queue state and every callback \<open>cb\<close>, \<open>cancelEvents cb\<close> removes all
  the pending entries whose callback is \<open>cb\<close>, consecutive ones included, and keeps every
  other entry, in the order they had: afterwards no entry has callback \<open>cb\<close>, and the queue,
  as the list of the callbacks with the ticks left until each is due, is the former one
  without the entries of \<open>cb\<close>. When no entry has callback \<open>cb\<close> the queue is unchanged:
  the same callbacks, in the same order and number, each with the ticks left it had.

  The array stores the tick counts relative to the counter, which \<open>cancelEvents\<close> restarts
  from 0 when entries remain: each stored count is the former one less the elapsed count
  \<open>TCNT4\<close> (stopping at zero), and is the former one when \<open>TCNT4\<close> is 0.
\<close>

theorem cancelEvents_removes_all:
  assumes "numEventsPending s \<le> length (eventData s)"
  shows "map callback (pending (cancelEvents cb s)) =
           filter (\<lambda>c. c \<noteq> cb) (map callback (pending s)) \<and>
         cb \<notin> set (map callback (pending (cancelEvents cb s))) \<and>
         timeLeft (cancelEvents cb s) = filter (\<lambda>(c, t). c \<noteq> cb) (timeLeft s) \<and>
         numEventsPending (cancelEvents cb s) =
           length (filter (\<lambda>c. c \<noteq> cb) (map callback (pending s))) \<and>
         (cb \<notin> set (map callback (pending s)) \<longrightarrow>
            timeLeft (cancelEvents cb s) = timeLeft s \<and>
            map callback (pending (cancelEvents cb s)) = map callback (pending s) \<and>
            numEventsPending (cancelEvents cb s) = numEventsPending s \<and>
            pending (cancelEvents cb s) = map (rebase (TCNT4 s)) (pending s)) \<and>
         pending (cancelEvents cb s) =
           filter (\<lambda>e. callback e \<noteq> cb) (map (rebase (TCNT4 s)) (pending s)) \<and>
         (cb \<notin> set (map callback (pending s)) \<and> TCNT4 s = 0 \<longrightarrow>
            pending (cancelEvents cb s) = pending s) \<and>
         map (\<lambda>e. unat (ticks e)) (pending (cancelEvents cb s)) =
           map (\<lambda>e. unat (ticks e) - unat (TCNT4 s)) (filter (\<lambda>e. callback e \<noteq> cb) (pending s))"
proof -
  let ?P = "map (rebase (TCNT4 s)) (pending s)"
  have p: "pending (cancelEvents cb s) = filter (\<lambda>e. callback e \<noteq> cb) ?P"
    using assms by (rule cancelEvents_pending(1))
  have "numEventsPending (cancelEvents cb s) \<le> length (eventData (cancelEvents cb s))"
    using cancelEvents_pending(2,3) [OF assms, of cb] assms by simp
  then have n: "numEventsPending (cancelEvents cb s) = length (pending (cancelEvents cb s))"
    by (simp add: pending_def)
  have cbs: "map callback (filter (\<lambda>e. callback e \<noteq> cb) ?P) =
      filter (\<lambda>c. c \<noteq> cb) (map callback (pending s))"
    by (simp add: filter_map comp_def)
  have lp: "length (pending s) = numEventsPending s"
    using assms by (simp add: pending_def)
  have none: "filter (\<lambda>e. callback e \<noteq> cb) ?P = ?P" if "cb \<notin> set (map callback (pending s))"
    using that by (auto simp: filter_id_conv)
  have tl: "timeLeft (cancelEvents cb s) = filter (\<lambda>(c, t). c \<noteq> cb) (timeLeft s)"
    using assms by (rule timeLeft_cancelEvents)
  have tlnone: "filter (\<lambda>(c, t). c \<noteq> cb) (timeLeft s) = timeLeft s"
    if "cb \<notin> set (map callback (pending s))"
    using that by (auto simp: filter_id_conv timeLeft_def)
  show ?thesis
  proof (intro conjI impI)
    show "pending (cancelEvents cb s) = filter (\<lambda>e. callback e \<noteq> cb) ?P"
      by (rule p)
    show c1: "map callback (pending (cancelEvents cb s)) = filter (\<lambda>c. c \<noteq> cb) (map callback (pending s))"
      by (simp only: p cbs)
    show "cb \<notin> set (map callback (pending (cancelEvents cb s)))"
      unfolding c1 by simp
    show "timeLeft (cancelEvents cb s) = filter (\<lambda>(c, t). c \<noteq> cb) (timeLeft s)"
      by (rule tl)
    show "numEventsPending (cancelEvents cb s) = length (filter (\<lambda>c. c \<noteq> cb) (map callback (pending s)))"
      unfolding n p cbs [symmetric] by simp
    show "timeLeft (cancelEvents cb s) = timeLeft s" if "cb \<notin> set (map callback (pending s))"
      by (simp only: tl tlnone [OF that])
    show "map callback (pending (cancelEvents cb s)) = map callback (pending s)"
      if "cb \<notin> set (map callback (pending s))"
      unfolding c1 using that by (auto simp: filter_id_conv)
    show "numEventsPending (cancelEvents cb s) = numEventsPending s"
      if "cb \<notin> set (map callback (pending s))"
      unfolding n p none [OF that] using lp by simp
    show "pending (cancelEvents cb s) = ?P" if "cb \<notin> set (map callback (pending s))"
      by (simp only: p none [OF that])
    show "pending (cancelEvents cb s) = pending s"
      if "cb \<notin> set (map callback (pending s)) \<and> TCNT4 s = 0"
    proof -
      from that have nm: "cb \<notin> set (map callback (pending s))" and z: "TCNT4 s = 0"
        by simp_all
      have "pending (cancelEvents cb s) = ?P"
        unfolding p by (rule none [OF nm])
      then show ?thesis
        using z by simp
    qed
    show "map (\<lambda>e. unat (ticks e)) (pending (cancelEvents cb s)) =
        map (\<lambda>e. unat (ticks e) - unat (TCNT4 s)) (filter (\<lambda>e. callback e \<noteq> cb) (pending s))"
      using assms by (rule due_times_cancelEvents)
  qed
qed

theorem cancelEvents_removes_all_witness:
  "numEventsPending sample_queue \<le> length (eventData sample_queue) \<and>
   pending (cancelEvents 1 sample_queue) = [\<lparr>callback = 2, ticks = 170\<rparr>] \<and>
   numEventsPending (cancelEvents 1 sample_queue) = 1 \<and>
   timeLeft sample_queue = [(1, 70), (2, 170), (1, 270)] \<and>
   timeLeft (cancelEvents 1 sample_queue) = [(2, 170)] \<and>
   7 \<notin> set (map callback (pending sample_queue)) \<and>
   timeLeft (cancelEvents 7 sample_queue) = [(1, 70), (2, 170), (1, 270)] \<and>
   numEventsPending (cancelEvents 7 sample_queue) = 3 \<and>
   TCNT4 (sample_queue\<lparr>TCNT4 := 0\<rparr>) = 0 \<and>
   pending (cancelEvents 7 (sample_queue\<lparr>TCNT4 := 0\<rparr>)) =
     [\<lparr>callback = 1, ticks = 100\<rparr>, \<lparr>callback = 2, ticks = 200\<rparr>, \<lparr>callback = 1, ticks = 300\<rparr>]"
proof -
  have h: "numEventsPending sample_queue \<le> length (eventData sample_queue)"
    by (simp add: sample_queue_def)
  have p: "pending sample_queue =
      [\<lparr>callback = 1, ticks = 100\<rparr>, \<lparr>callback = 2, ticks = 200\<rparr>, \<lparr>callback = 1, ticks = 300\<rparr>]"
    by (simp add: sample_queue_def pending_def)
  have t: "TCNT4 sample_queue = 30"
    by (simp add: sample_queue_def)
  have n: "numEventsPending sample_queue = 3"
    by (simp add: sample_queue_def)
  have tl: "timeLeft sample_queue = [(1, 70), (2, 170), (1, 270)]"
    by (simp add: timeLeft_def p t)
  have nm: "7 \<notin> set (map callback (pending sample_queue))"
    by (simp add: p)
  have one: "pending (cancelEvents 1 sample_queue) = [\<lparr>callback = 2, ticks = 170\<rparr>] \<and>
      numEventsPending (cancelEvents 1 sample_queue) = 1 \<and>
      timeLeft (cancelEvents 1 sample_queue) = [(2, 170)]"
    using cancelEvents_removes_all [OF h, of 1] by (simp add: p t tl rebase_def)
  have seven: "timeLeft (cancelEvents 7 sample_queue) = [(1, 70), (2, 170), (1, 270)] \<and>
      numEventsPending (cancelEvents 7 sample_queue) = 3"
    using cancelEvents_removes_all [OF h, of 7] nm by (simp add: tl n)
  have h0: "numEventsPending (sample_queue\<lparr>TCNT4 := 0\<rparr>) \<le> length (eventData (sample_queue\<lparr>TCNT4 := 0\<rparr>))"
    using h by simp
  have p0: "pending (sample_queue\<lparr>TCNT4 := 0\<rparr>) = pending sample_queue"
    by (simp add: pending_def)
  have zero: "pending (cancelEvents 7 (sample_queue\<lparr>TCNT4 := 0\<rparr>)) =
      [\<lparr>callback = 1, ticks = 100\<rparr>, \<lparr>callback = 2, ticks = 200\<rparr>, \<lparr>callback = 1, ticks = 300\<rparr>]"
    using cancelEvents_removes_all [OF h0, of 7] nm by (simp add: p0 p)
  show ?thesis
    using h tl nm one seven zero by simp
qed

text \<open>
  The stored counts and the counter change together. Here no entry has callback 7 and the
  timer has counted 30 ticks: \<open>cancelEvents\<close> takes the 30 ticks from the stored counts and
  restarts the counter, and the ticks left until each event is due are what they were.
\<close>

lemma cancelEvents_restarts_counter:
  "pending sample_queue =
     [\<lparr>callback = 1, ticks = 100\<rparr>, \<lparr>callback = 2, ticks = 200\<rparr>, \<lparr>callback = 1, ticks = 300\<rparr>] \<and>
   TCNT4 sample_queue = 30 \<and>
   pending (cancelEvents 7 sample_queue) =
     [\<lparr>callback = 1, ticks = 70\<rparr>, \<lparr>callback = 2, ticks = 170\<rparr>, \<lparr>callback = 1, ticks = 270\<rparr>] \<and>
   TCNT4 (cancelEvents 7 sample_queue) = 0 \<and>
   timeLeft (cancelEvents 7 sample_queue) = timeLeft sample_queue"
  by code_simp

section \<open>Co-processor link: helper facts\<close>

lemmas protocol_defs =
  UPDATER_PROTOCOL_SYNC_BYTE_1_def UPDATER_PROTOCOL_SYNC_BYTE_2_def
  UPDATER_PROTOCOL_DATA_SIZE_def UPDATER_PROTOCOL_HEADER_SIZE_def ESP32_TX_BUF_LEN_def
  CMD_WIFI_CONNECT_def CMD_WIFI_CONNECT_FAST_def
  RSP_ACK_def RSP_PONG_def NOTIFY_DEBUG_def NOTIFY_WIFI_CONNECTED_def NOTIFY_WIFI_FAILED_def
  NOTIFY_WIFI_DISCONNECTED_def RSP_PARTITION_VALID_def NOTIFY_FLASH_PROGRESS_def
  NOTIFY_FLASH_COMPLETE_def NOTIFY_FLASH_FAILED_def NOTIFY_RCS_CONNECTED_def
  NOTIFY_RCS_DISCONNECTED_def NOTIFY_RCS_DATA_def RSP_BLE_STATUS_def NOTIFY_BLE_CLIENT_EVENT_def
  BLE_STATE_OFF_def BLE_STATE_ADVERTISING_def BLE_STATE_CONNECTED_def
  BLE_EVENT_CLIENT_CONNECTED_def BLE_EVENT_CLIENT_DISCONNECTED_def

lemma init_world_simps:
  "init_world = boot_world\<lparr>s_rxCallback := Some Ptr_FEHESP32_handleMessage, s_isInitialized := True\<rparr>"
  by (simp add: init_world_def FEHESP32_init_def ESP32_init_def ESP32_powerOff_def boot_world_def)

lemma len_cmp:
  "(len :: u8) < 4 \<longleftrightarrow> unat len < 4"
  "5 \<le> len \<longleftrightarrow> 5 \<le> unat len"
  "8 \<le> len \<longleftrightarrow> 8 \<le> unat len"
  "12 \<le> len \<longleftrightarrow> 12 \<le> unat len"
  "4 < len \<longleftrightarrow> 4 < unat len"
  by (simp_all add: word_less_nat_alt word_le_nat_alt)

lemma unat_receivedTotalLen:
  "unat (receivedTotalLen rxBuf) =
     UPDATER_PROTOCOL_HEADER_SIZE +
     min (unat (rxBuf ! 3)) (ESP32_TX_BUF_LEN - UPDATER_PROTOCOL_HEADER_SIZE)"
proof (cases "44 < unat (rxBuf ! 3)")
  case True
  then show ?thesis
    by (simp add: receivedTotalLen_def protocol_defs)
next
  case False
  then have "unat (4 + rxBuf ! 3) = 4 + unat (rxBuf ! 3)"
    by (simp add: unat_word_ariths)
  with False show ?thesis
    by (simp add: receivedTotalLen_def protocol_defs)
qed

lemma FEHESP32_reset_fields:
  "s_version (FEHESP32_reset f w) = s_version boot_world"
  "s_connected (FEHESP32_reset f w) = s_connected boot_world"
  "s_flashing (FEHESP32_reset f w) = s_flashing boot_world"
  "s_flashComplete (FEHESP32_reset f w) = s_flashComplete boot_world"
  "s_flashError (FEHESP32_reset f w) = s_flashError boot_world"
  "s_partitionValid (FEHESP32_reset f w) = s_partitionValid boot_world"
  "s_validatedPartition (FEHESP32_reset f w) = s_validatedPartition boot_world"
  "s_lastAckedCmd (FEHESP32_reset f w) = s_lastAckedCmd boot_world"
  "s_wifiConnectResult (FEHESP32_reset f w) = s_wifiConnectResult boot_world"
  "s_wifiConnectSuccess (FEHESP32_reset f w) = s_wifiConnectSuccess boot_world"
  "s_rcsConnected (FEHESP32_reset f w) = s_rcsConnected boot_world"
  "s_bleState (FEHESP32_reset f w) = s_bleState boot_world"
  "s_flashBytes (FEHESP32_reset f w) = s_flashBytes w"
  "s_flashTotal (FEHESP32_reset f w) = s_flashTotal w"
  "s_flashErrorCode (FEHESP32_reset f w) = s_flashErrorCode w"
  by (simp_all add: FEHESP32_reset_def ESP32_reset_def ESP32_powerOn_def ESP32_powerOff_def
      delay_def boot_world_def Let_def)

lemma handleMessage_env [simp]:
  "s_isInitialized (FEHESP32_handleMessage msg len w) = s_isInitialized w"
  "s_rxCallback (FEHESP32_handleMessage msg len w) = s_rxCallback w"
  "clock_ms (FEHESP32_handleMessage msg len w) = clock_ms w"
  "spi_peer (FEHESP32_handleMessage msg len w) = spi_peer w"
  "spi_sent (FEHESP32_handleMessage msg len w) = spi_sent w"
  by (simp_all add: FEHESP32_handleMessage_def Let_def split: option.splits)

lemma handleMessage_lastAcked:
  "s_lastAckedCmd (FEHESP32_handleMessage msg len w) =
     (if 5 \<le> len \<and> msg ! 2 = RSP_ACK then msg ! 4 else s_lastAckedCmd w)"
proof -
  have "5 \<le> len \<Longrightarrow> \<not> len < 4"
    by (simp add: word_le_nat_alt word_less_nat_alt)
  then show ?thesis
    by (auto simp: FEHESP32_handleMessage_def Let_def protocol_defs split: option.splits)
qed

lemma receivedTotalLen_ge5: "5 \<le> receivedTotalLen rx \<longleftrightarrow> rx ! 3 \<noteq> 0"
proof -
  have "5 \<le> receivedTotalLen rx \<longleftrightarrow> 5 \<le> unat (receivedTotalLen rx)"
    by (simp add: word_le_nat_alt)
  also have "\<dots> \<longleftrightarrow> 1 \<le> unat (rx ! 3)"
    by (auto simp: unat_receivedTotalLen protocol_defs)
  also have "\<dots> \<longleftrightarrow> rx ! 3 \<noteq> 0"
    by (simp add: Suc_le_eq unat_gt_0)
  finally show ?thesis .
qed

lemma handleReceivedMessage_env [simp]:
  "s_isInitialized (handleReceivedMessage rx w) = s_isInitialized w"
  "s_rxCallback (handleReceivedMessage rx w) = s_rxCallback w"
  "clock_ms (handleReceivedMessage rx w) = clock_ms w"
  "spi_peer (handleReceivedMessage rx w) = spi_peer w"
  "spi_sent (handleReceivedMessage rx w) = spi_sent w"
  by (simp_all add: handleReceivedMessage_def split: option.splits ESP32MessageCallback.splits)

lemma handleReceivedMessage_lastAcked:
  "s_lastAckedCmd (handleReceivedMessage rx w) =
     (if s_rxCallback w = Some Ptr_FEHESP32_handleMessage \<and>
         rx ! 0 = UPDATER_PROTOCOL_SYNC_BYTE_1 \<and> rx ! 1 = UPDATER_PROTOCOL_SYNC_BYTE_2 \<and>
         rx ! 2 = RSP_ACK \<and> rx ! 3 \<noteq> 0
      then rx ! 4 else s_lastAckedCmd w)"
  by (auto simp: handleReceivedMessage_def handleMessage_lastAcked receivedTotalLen_ge5
      split: option.splits ESP32MessageCallback.splits)

lemma spiTransfer_rx: "fst (spiTransfer tx w) = peerResponse w 0"
  by (simp add: spiTransfer_def peerResponse_def split: list.splits)

lemma spiTransfer_world:
  "snd (spiTransfer tx w) = w\<lparr>spi_sent := spi_sent w @ [tx], spi_peer := tl (spi_peer w)\<rparr>"
  by (simp add: spiTransfer_def split: list.splits)

section \<open>Transport: the length field of an oversized command\<close>

text \<open>
  Whenever the payload does not itself start with the sync marker, an initialised
  transport transmits one frame, with the command in byte 2 and the caller's \<open>dataLen\<close>,
  whatever its value, in byte 3.
\<close>

lemma sendCommand_sent:
  assumes init: "s_isInitialized w"
    and plain: "\<not> (data \<noteq> None \<and> 2 \<le> dataLen \<and>
                   the data ! 0 = UPDATER_PROTOCOL_SYNC_BYTE_1 \<and>
                   the data ! 1 = UPDATER_PROTOCOL_SYNC_BYTE_2)"
  shows "fst (ESP32_sendCommand cmd data dataLen w) \<and>
         (\<exists>tx. spi_sent (snd (ESP32_sendCommand cmd data dataLen w)) = spi_sent w @ [tx] \<and>
               tx ! 2 = cmd \<and> tx ! 3 = dataLen)"
proof -
  define tx1 where "tx1 = (replicate ESP32_TX_BUF_LEN (0 :: u8))
      [0 := UPDATER_PROTOCOL_SYNC_BYTE_1, 1 := UPDATER_PROTOCOL_SYNC_BYTE_2, 2 := cmd, 3 := dataLen]"
  define tx where "tx = (if 0 < dataLen \<and> data \<noteq> None
      then memcpy tx1 4 (the data) (min (unat dataLen) (ESP32_TX_BUF_LEN - 4)) else tx1)"
  have l: "length tx1 = 48"
    by (simp add: tx1_def ESP32_TX_BUF_LEN_def)
  have "tx1 ! 2 = cmd" "tx1 ! 3 = dataLen"
    by (simp_all add: tx1_def ESP32_TX_BUF_LEN_def)
  then have nth: "tx ! 2 = cmd" "tx ! 3 = dataLen"
    using l by (simp_all add: tx_def memcpy_def nth_append)
  have "ESP32_sendCommand cmd data dataLen w =
      (True, handleReceivedMessage (fst (spiTransfer tx w)) (snd (spiTransfer tx w)))"
    using init plain
    by (auto simp: ESP32_sendCommand_def Let_def split_def tx_def tx1_def)
  then show ?thesis
    using nth by (simp add: spiTransfer_world)
qed

text \<open>
  Claim C1. An initialised transport is given command \<open>0x42\<close> with a payload of 45 bytes,
  one more than the frame holds after its header. \<open>sendCommand\<close> copies 44 bytes, and the
  frame it transmits has 45, the length the caller gave, in its LEN field (byte 3).
\<close>

theorem sendCommand_oversized_len_field:
  "fst (ESP32_sendCommand 0x42 (Some (replicate 45 7)) 45 init_world) \<and>
   spi_sent (snd (ESP32_sendCommand 0x42 (Some (replicate 45 7)) 45 init_world)) =
     [[0xAA, 0x55, 0x42, 45] @ replicate 44 7] \<and>
   min (unat (45 :: u8)) (ESP32_TX_BUF_LEN - 4) = 44"
  by code_simp

section \<open>Driver: reset of the link session state\<close>

text \<open>
  Claim C2. A flash-progress notification (100 of 1000 bytes) and a flash-failed
  notification (error code 5) are received, then the link is reset. After
  \<open>FEHESP32::reset\<close> the flash byte counter is still 100, the flash total still 1000 and
  the flash error code still 5, whereas their initial values are 0.
\<close>

theorem reset_keeps_flash_counters:
  "s_flashBytes (FEHESP32_reset False after_flash_failure) = 100 \<and>
   s_flashTotal (FEHESP32_reset False after_flash_failure) = 1000 \<and>
   s_flashErrorCode (FEHESP32_reset False after_flash_failure) = 5 \<and>
   s_flashBytes boot_world = 0 \<and> s_flashTotal boot_world = 0 \<and> s_flashErrorCode boot_world = 0"
  by (simp add: FEHESP32_reset_fields after_flash_failure_def flashing_world_def init_world_simps
      boot_world_def FEHESP32_handleMessage_def protocol_defs Let_def le32_def)

section \<open>Driver: under-length payloads\<close>

text \<open>
  Claim C3, as the code has it. A message whose total length is below the four header
  bytes plus the payload bytes that \<open>handleMessage\<close> reads for its command id (\<open>fixedFields\<close>)
  leaves the whole state unchanged, with one exception: a flash-failed notification
  without its error-code byte still clears the flashing flag and sets the flash-error
  flag, and changes nothing else (the error code keeps its value).
\<close>

theorem handleMessage_underlength:
  "(unat len < 4 + fixedFields (msg ! 2) \<and> \<not> (msg ! 2 = NOTIFY_FLASH_FAILED \<and> len = 4) \<longrightarrow>
      FEHESP32_handleMessage msg len w = w) \<and>
   (msg ! 2 = NOTIFY_FLASH_FAILED \<and> len = 4 \<longrightarrow>
      FEHESP32_handleMessage msg len w = w\<lparr>s_flashing := False, s_flashError := True\<rparr>)"
proof (intro conjI impI)
  assume a: "unat len < 4 + fixedFields (msg ! 2) \<and> \<not> (msg ! 2 = NOTIFY_FLASH_FAILED \<and> len = 4)"
  show "FEHESP32_handleMessage msg len w = w"
  proof (cases "unat len < 4")
    case True
    then show ?thesis
      by (simp add: FEHESP32_handleMessage_def len_cmp)
  next
    case False
    with a have "fixedFields (msg ! 2) \<noteq> 0"
      by auto
    then consider "msg ! 2 = RSP_ACK" | "msg ! 2 = RSP_PONG" | "msg ! 2 = NOTIFY_DEBUG"
      | "msg ! 2 = NOTIFY_RCS_DATA" | "msg ! 2 = NOTIFY_FLASH_PROGRESS" | "msg ! 2 = NOTIFY_FLASH_FAILED"
      | "msg ! 2 = RSP_PARTITION_VALID" | "msg ! 2 = RSP_BLE_STATUS" | "msg ! 2 = NOTIFY_BLE_CLIENT_EVENT"
      by (auto simp: fixedFields_def split: if_splits)
    then show ?thesis
    proof cases
      case 1
      with a False show ?thesis
        by (simp add: FEHESP32_handleMessage_def fixedFields_def len_cmp)
    next
      case 2
      with a False show ?thesis
        by (simp add: FEHESP32_handleMessage_def fixedFields_def len_cmp protocol_defs)
    next
      case 3
      with a False show ?thesis
        by (simp add: FEHESP32_handleMessage_def fixedFields_def len_cmp protocol_defs)
    next
      case 4
      with a False show ?thesis
        by (simp add: FEHESP32_handleMessage_def fixedFields_def len_cmp protocol_defs split: option.splits)
    next
      case 5
      with a False show ?thesis
        by (simp add: FEHESP32_handleMessage_def fixedFields_def len_cmp protocol_defs)
    next
      case 6
      with a False have "unat len = 4"
        by (simp add: fixedFields_def protocol_defs)
      then have "len = 4"
        by (simp add: word_unat_eq_iff)
      with a 6 show ?thesis
        by simp
    next
      case 7
      with a False show ?thesis
        by (simp add: FEHESP32_handleMessage_def fixedFields_def len_cmp protocol_defs)
    next
      case 8
      with a False show ?thesis
        by (simp add: FEHESP32_handleMessage_def fixedFields_def len_cmp protocol_defs)
    next
      case 9
      with a False show ?thesis
        by (simp add: FEHESP32_handleMessage_def fixedFields_def len_cmp protocol_defs)
    qed
  qed
next
  assume "msg ! 2 = NOTIFY_FLASH_FAILED \<and> len = 4"
  then show "FEHESP32_handleMessage msg len w = w\<lparr>s_flashing := False, s_flashError := True\<rparr>"
    by (simp add: FEHESP32_handleMessage_def protocol_defs Let_def)
qed

theorem handleMessage_underlength_witness:
  "unat (4 :: u8) < 4 + fixedFields ([0xAA, 0x55, 0x80, 0] ! 2) \<and>
   FEHESP32_handleMessage [0xAA, 0x55, 0x80, 0] 4 flashing_world = flashing_world \<and>
   FEHESP32_handleMessage [0xAA, 0x55, 0xB3, 0] 4 flashing_world =
     flashing_world\<lparr>s_flashing := False, s_flashError := True\<rparr>"
  using handleMessage_underlength [of 4 "[0xAA, 0x55, 0x80, 0]" flashing_world]
    handleMessage_underlength [of 4 "[0xAA, 0x55, 0xB3, 0]" flashing_world]
  by (simp add: fixedFields_def protocol_defs)

text \<open>
  The claim C3 says that a flash-failed notification without its error-code byte changes
  nothing. While a flash is in progress it clears the flashing flag and sets the error flag.
\<close>

theorem handleMessage_flash_failed_counterexample:
  "[0xAA, 0x55, 0xB3, 0 :: u8] ! 2 = NOTIFY_FLASH_FAILED \<and>
   s_flashing flashing_world \<and> \<not> s_flashError flashing_world \<and>
   \<not> s_flashing (FEHESP32_handleMessage [0xAA, 0x55, 0xB3, 0] 4 flashing_world) \<and>
   s_flashError (FEHESP32_handleMessage [0xAA, 0x55, 0xB3, 0] 4 flashing_world)"
  by (simp add: flashing_world_def init_world_simps boot_world_def FEHESP32_handleMessage_def
      protocol_defs Let_def)

section \<open>Transport: the length passed to the message callback\<close>

text \<open>
  Claim C4, as the code has it. For a received buffer that starts with the sync marker the
  transport calls the registered callback with the buffer and a total length of the four
  header bytes plus the frame's length byte clamped to 44, the buffer size of 48 less the
  header: the payload length passed on never exceeds 44 and the total never exceeds 48.
\<close>

theorem received_length_clamped:
  assumes "rxBuf ! 0 = UPDATER_PROTOCOL_SYNC_BYTE_1" and "rxBuf ! 1 = UPDATER_PROTOCOL_SYNC_BYTE_2"
  shows "handleReceivedMessage rxBuf w =
           (case s_rxCallback w of
              Some cb \<Rightarrow> FEHESP32_handleMessage rxBuf (receivedTotalLen rxBuf) w
            | None \<Rightarrow> w) \<and>
         unat (receivedTotalLen rxBuf) = 4 + min (unat (rxBuf ! 3)) 44 \<and>
         unat (receivedTotalLen rxBuf) - UPDATER_PROTOCOL_HEADER_SIZE
           \<le> ESP32_TX_BUF_LEN - UPDATER_PROTOCOL_HEADER_SIZE \<and>
         unat (receivedTotalLen rxBuf) \<le> ESP32_TX_BUF_LEN \<and>
         ESP32_TX_BUF_LEN = 48 \<and> UPDATER_PROTOCOL_HEADER_SIZE = 4"
proof -
  have "handleReceivedMessage rxBuf w =
      (case s_rxCallback w of
         Some cb \<Rightarrow> FEHESP32_handleMessage rxBuf (receivedTotalLen rxBuf) w
       | None \<Rightarrow> w)"
    using assms by (simp add: handleReceivedMessage_def split: option.splits ESP32MessageCallback.splits)
  then show ?thesis
    by (simp add: unat_receivedTotalLen protocol_defs)
qed

theorem received_length_clamped_witness:
  "oversized_frame ! 0 = UPDATER_PROTOCOL_SYNC_BYTE_1 \<and>
   oversized_frame ! 1 = UPDATER_PROTOCOL_SYNC_BYTE_2 \<and>
   handleReceivedMessage oversized_frame init_world =
     FEHESP32_handleMessage oversized_frame (receivedTotalLen oversized_frame) init_world \<and>
   unat (receivedTotalLen oversized_frame) = 48"
proof -
  have h1: "oversized_frame ! 0 = UPDATER_PROTOCOL_SYNC_BYTE_1"
    and h2: "oversized_frame ! 1 = UPDATER_PROTOCOL_SYNC_BYTE_2"
    by (simp_all add: oversized_frame_def protocol_defs)
  have "oversized_frame ! 3 = 0xFF"
    by (simp add: oversized_frame_def)
  then show ?thesis
    using h1 h2 received_length_clamped [OF h1 h2, of init_world]
    by (simp add: init_world_simps)
qed

text \<open>
  The claim C4 says the length passed on never exceeds a payload of 41 bytes. A buffer
  with the sync marker and length byte \<open>0xFF\<close> is passed on with total length 48, a payload
  of 44 bytes.
\<close>

theorem received_length_counterexample:
  "oversized_frame ! 0 = UPDATER_PROTOCOL_SYNC_BYTE_1 \<and>
   oversized_frame ! 1 = UPDATER_PROTOCOL_SYNC_BYTE_2 \<and>
   length oversized_frame = ESP32_TX_BUF_LEN \<and>
   receivedTotalLen oversized_frame = 48 \<and>
   UPDATER_PROTOCOL_DATA_SIZE < unat (receivedTotalLen oversized_frame) - UPDATER_PROTOCOL_HEADER_SIZE \<and>
   handleReceivedMessage oversized_frame init_world =
     FEHESP32_handleMessage oversized_frame 48 init_world"
  by (simp add: oversized_frame_def protocol_defs receivedTotalLen_def handleReceivedMessage_def
      init_world_simps)

section \<open>Driver: the length guard of the WiFi connect commands\<close>

text \<open>
  For strings shorter than 256 bytes the guard of \<open>connectWifi\<close> does what it is meant to:
  a length above 16 is refused and nothing is transmitted, and otherwise an initialised
  transport transmits one connect command.
\<close>

lemma narrow_small:
  "n < 256 \<Longrightarrow> unat (of_nat n :: u8) = n"
  by (simp add: unat_of_nat)

lemma connectWifi_guard:
  assumes "strlen ssid < 256" and "strlen password < 256"
  shows "16 < strlen ssid \<or> 16 < strlen password \<Longrightarrow>
           FEHESP32_connectWifi ssid password w = (False, w)"
    and "strlen ssid \<le> 16 \<Longrightarrow> strlen password \<le> 16 \<Longrightarrow> s_isInitialized w \<Longrightarrow>
           fst (FEHESP32_connectWifi ssid password w) \<and>
           (\<exists>tx. spi_sent (snd (FEHESP32_connectWifi ssid password w)) = spi_sent w @ [tx] \<and>
                 tx ! 2 = CMD_WIFI_CONNECT)"
proof -
  have s: "(16 :: u8) < of_nat (strlen ssid) \<longleftrightarrow> 16 < strlen ssid"
    and p: "(16 :: u8) < of_nat (strlen password) \<longleftrightarrow> 16 < strlen password"
    using assms by (simp_all add: word_less_nat_alt narrow_small)
  show "FEHESP32_connectWifi ssid password w = (False, w)"
    if "16 < strlen ssid \<or> 16 < strlen password"
    using that by (simp add: FEHESP32_connectWifi_def Let_def s p)
  show "fst (FEHESP32_connectWifi ssid password w) \<and>
        (\<exists>tx. spi_sent (snd (FEHESP32_connectWifi ssid password w)) = spi_sent w @ [tx] \<and>
              tx ! 2 = CMD_WIFI_CONNECT)"
    if le: "strlen ssid \<le> 16" "strlen password \<le> 16" and init: "s_isInitialized w"
  proof -
    let ?buf = "[of_nat (strlen ssid) :: u8] @ take (unat (of_nat (strlen ssid) :: u8)) ssid @
        [of_nat (strlen password) :: u8] @
        (if (0 :: u8) < of_nat (strlen password)
         then take (unat (of_nat (strlen password) :: u8)) password else [])"
    have "unat (of_nat (strlen ssid) :: u8) \<le> 16"
      using le assms by (simp add: narrow_small)
    then have "(of_nat (strlen ssid) :: u8) \<noteq> UPDATER_PROTOCOL_SYNC_BYTE_1"
      by (auto simp: UPDATER_PROTOCOL_SYNC_BYTE_1_def)
    then have plain: "\<not> (Some ?buf \<noteq> None \<and>
        2 \<le> 2 + (of_nat (strlen ssid) :: u8) + of_nat (strlen password) \<and>
        the (Some ?buf) ! 0 = UPDATER_PROTOCOL_SYNC_BYTE_1 \<and>
        the (Some ?buf) ! 1 = UPDATER_PROTOCOL_SYNC_BYTE_2)"
      by simp
    have "FEHESP32_connectWifi ssid password w =
        ESP32_sendCommand CMD_WIFI_CONNECT (Some ?buf)
          (2 + of_nat (strlen ssid) + of_nat (strlen password)) w"
      using le by (simp add: FEHESP32_connectWifi_def Let_def s p)
    then show ?thesis
      using sendCommand_sent [OF init plain, of CMD_WIFI_CONNECT] by auto
  qed
qed

text \<open>
  Claim C10. \<open>connectWifi\<close> is called with an SSID of 256 bytes, far above the limit of 16.
  Its length is stored in a \<^verbatim>\<open>uint8_t\<close>, where it is 0, so the guard lets it through:
  the call returns true and one connect command with an empty SSID is transmitted.
\<close>

theorem connectWifi_long_ssid_sent:
  "strlen (replicate 256 0x41) = 256 \<and>
   fst (FEHESP32_connectWifi (replicate 256 0x41) [0x70, 0x77] init_world) \<and>
   spi_sent (snd (FEHESP32_connectWifi (replicate 256 0x41) [0x70, 0x77] init_world)) =
     [[0xAA, 0x55, 0x10, 4, 0, 2, 0x70, 0x77] @ replicate 40 0]"
  by code_simp

section \<open>Driver: waiting for an acknowledgement\<close>

lemma poll_env:
  "s_isInitialized (FEHESP32_poll w) = s_isInitialized w"
  "s_rxCallback (FEHESP32_poll w) = s_rxCallback w"
  "clock_ms (FEHESP32_poll w) = clock_ms w"
  "spi_peer (FEHESP32_poll w) = (if s_isInitialized w then tl (spi_peer w) else spi_peer w)"
  by (simp_all add: FEHESP32_poll_def ESP32_poll_def split_def spiTransfer_world)

lemma poll_lastAcked:
  "s_lastAckedCmd (FEHESP32_poll w) =
     (if s_isInitialized w \<and> s_rxCallback w = Some Ptr_FEHESP32_handleMessage \<and>
         peerResponse w 0 ! 0 = UPDATER_PROTOCOL_SYNC_BYTE_1 \<and>
         peerResponse w 0 ! 1 = UPDATER_PROTOCOL_SYNC_BYTE_2 \<and>
         peerResponse w 0 ! 2 = RSP_ACK \<and> peerResponse w 0 ! 3 \<noteq> 0
      then peerResponse w 0 ! 4 else s_lastAckedCmd w)"
  by (simp add: FEHESP32_poll_def ESP32_poll_def split_def handleReceivedMessage_lastAcked
      spiTransfer_rx spiTransfer_world)

lemma poll_matches:
  "s_lastAckedCmd w \<noteq> cmdId \<Longrightarrow>
   s_lastAckedCmd (FEHESP32_poll w) = cmdId \<longleftrightarrow> ackProcessedAt w cmdId 0"
  by (auto simp: poll_lastAcked ackProcessedAt_def isAckFrame_def)

lemma peerResponse_tl:
  "spi_peer w' = tl (spi_peer w) \<Longrightarrow> peerResponse w' k = peerResponse w (Suc k)"
  by (cases "spi_peer w") (simp_all add: peerResponse_def)

lemma ackProcessedAt_step:
  "ackProcessedAt (delay 10 (FEHESP32_poll w)) cmdId k = ackProcessedAt w cmdId (Suc k)"
proof (cases "s_isInitialized w")
  case True
  then have "peerResponse (delay 10 (FEHESP32_poll w)) k = peerResponse w (Suc k)"
    by (intro peerResponse_tl) (simp add: delay_def poll_env)
  then show ?thesis
    by (simp add: ackProcessedAt_def delay_def poll_env)
next
  case False
  then show ?thesis
    by (simp add: ackProcessedAt_def delay_def poll_env)
qed

lemma waitForAck_loop_result:
  assumes T: "unat timeoutMs \<le> 2 ^ 32 - 10"
  shows "n = (unat timeoutMs - unat (millis w - startTime) + 9) div 10 \<Longrightarrow>
         s_lastAckedCmd w \<noteq> cmdId \<Longrightarrow>
         \<exists>w'. waitForAck_loop cmdId timeoutMs startTime w =
                 Some ((\<exists>k<n. ackProcessedAt w cmdId k), w')"
proof (induction n arbitrary: w)
  case 0
  then have "\<not> unat (millis w - startTime) < unat timeoutMs"
    by linarith
  then have "\<not> millis w - startTime < timeoutMs"
    by (simp add: word_less_nat_alt)
  then show ?case
    by (subst waitForAck_loop.simps) simp
next
  case (Suc n)
  define e where "e = unat (millis w - startTime)"
  have lt: "e < unat timeoutMs"
    using Suc.prems(1) unfolding e_def by linarith
  then have cond: "millis w - startTime < timeoutMs"
    by (simp add: word_less_nat_alt e_def)
  let ?w1 = "FEHESP32_poll w"
  show ?case
  proof (cases "s_lastAckedCmd ?w1 = cmdId")
    case True
    then have "ackProcessedAt w cmdId 0"
      using poll_matches [OF Suc.prems(2)] by simp
    then have "\<exists>k<Suc n. ackProcessedAt w cmdId k"
      by blast
    then show ?thesis
      using cond True by (subst waitForAck_loop.simps) (simp add: Let_def)
  next
    case False
    then have no0: "\<not> ackProcessedAt w cmdId 0"
      using poll_matches [OF Suc.prems(2)] by simp
    let ?w2 = "delay 10 ?w1"
    have m2: "millis ?w2 = millis w + 10"
      by (simp add: millis_def delay_def poll_env)
    have "millis w + 10 - startTime = (millis w - startTime) + 10"
      by simp
    moreover have "unat ((millis w - startTime) + 10) = e + 10"
      using lt T unfolding e_def by (simp add: unat_word_ariths)
    ultimately have e2: "unat (millis ?w2 - startTime) = e + 10"
      by (simp only: m2)
    have n: "n = (unat timeoutMs - unat (millis ?w2 - startTime) + 9) div 10"
      using Suc.prems(1) lt unfolding e2 e_def [symmetric] by linarith
    have slot: "s_lastAckedCmd ?w2 \<noteq> cmdId"
      using False by (simp add: delay_def)
    obtain w' where "waitForAck_loop cmdId timeoutMs startTime ?w2 =
        Some ((\<exists>k<n. ackProcessedAt ?w2 cmdId k), w')"
      using Suc.IH [OF n slot] by blast
    then have "waitForAck_loop cmdId timeoutMs startTime ?w2 =
        Some ((\<exists>k<n. ackProcessedAt w cmdId (Suc k)), w')"
      by (simp add: ackProcessedAt_step)
    moreover have "(\<exists>k<n. ackProcessedAt w cmdId (Suc k)) \<longleftrightarrow> (\<exists>k<Suc n. ackProcessedAt w cmdId k)"
      using no0 by (metis less_Suc_eq_0_disj)
    ultimately show ?thesis
      using cond False by (subst waitForAck_loop.simps) (simp add: Let_def)
  qed
qed

text \<open>
  Claim C9, as the code has it. For a command id other than \<open>0x00\<close> and a timeout of at
  most \<open>2^32 - 10\<close> ms, \<open>waitForAck\<close> returns, and it returns true exactly when one of its
  polls processes an acknowledgement carrying \<open>cmdId\<close>. It polls every 10 ms while the
  elapsed time is below the timeout, that is \<open>(timeoutMs + 9) div 10\<close> times at most. The
  slot is set to \<open>0x00\<close> before the first poll, so the value it held before the call has no
  effect on the result; when no poll within the timeout brings the acknowledgement the
  result is false.
\<close>

theorem waitForAck_iff:
  assumes "cmdId \<noteq> 0" and "unat timeoutMs \<le> 2 ^ 32 - 10"
  shows "(\<exists>w'. FEHESP32_waitForAck cmdId timeoutMs w =
            Some ((\<exists>k < (unat timeoutMs + 9) div 10. ackProcessedAt w cmdId k), w')) \<and>
         (\<forall>stale. FEHESP32_waitForAck cmdId timeoutMs (w\<lparr>s_lastAckedCmd := stale\<rparr>) =
            FEHESP32_waitForAck cmdId timeoutMs w)"
proof
  let ?w0 = "w\<lparr>s_lastAckedCmd := 0x00\<rparr>"
  have n: "(unat timeoutMs + 9) div 10 = (unat timeoutMs - unat (millis ?w0 - millis ?w0) + 9) div 10"
    by simp
  have slot: "s_lastAckedCmd ?w0 \<noteq> cmdId"
    using assms(1) by simp
  have same: "ackProcessedAt ?w0 cmdId k = ackProcessedAt w cmdId k" for k
    by (simp add: ackProcessedAt_def peerResponse_def)
  show "\<exists>w'. FEHESP32_waitForAck cmdId timeoutMs w =
      Some ((\<exists>k < (unat timeoutMs + 9) div 10. ackProcessedAt w cmdId k), w')"
    using waitForAck_loop_result [OF assms(2) n slot]
    by (simp add: FEHESP32_waitForAck_def Let_def same)
  show "\<forall>stale. FEHESP32_waitForAck cmdId timeoutMs (w\<lparr>s_lastAckedCmd := stale\<rparr>) =
      FEHESP32_waitForAck cmdId timeoutMs w"
    by (simp add: FEHESP32_waitForAck_def millis_def)
qed

theorem waitForAck_iff_witness:
  "(5 :: u8) \<noteq> 0 \<and> (6 :: u8) \<noteq> 0 \<and> unat (25 :: u32) \<le> 2 ^ 32 - 10 \<and>
   s_lastAckedCmd ack_world = 6 \<and>
   (\<exists>w'. FEHESP32_waitForAck 5 25 ack_world = Some (True, w')) \<and>
   (\<exists>w'. FEHESP32_waitForAck 6 25 ack_world = Some (False, w'))"
proof -
  have h1: "(5 :: u8) \<noteq> 0" and h1': "(6 :: u8) \<noteq> 0" and h2: "unat (25 :: u32) \<le> 2 ^ 32 - 10"
    by simp_all
  have a: "ackProcessedAt ack_world 5 1"
    by (simp add: ackProcessedAt_def isAckFrame_def peerResponse_def ack_world_def init_world_simps
        protocol_defs)
  have b: "\<not> ackProcessedAt ack_world 6 k" for k
    by (cases "k = 0"; cases "k = 1")
      (simp_all add: ackProcessedAt_def isAckFrame_def peerResponse_def ack_world_def
        init_world_simps protocol_defs)
  have "\<exists>k<3. ackProcessedAt ack_world 5 k"
    using a by (intro exI [of _ 1]) simp
  moreover have "s_lastAckedCmd ack_world = 6"
    by (simp add: ack_world_def)
  ultimately show ?thesis
    using h1 h1' h2 waitForAck_iff [OF h1 h2, of ack_world] waitForAck_iff [OF h1' h2, of ack_world] b
    by simp
qed

text \<open>
  The claim C9 says that the call returns true only if an acknowledgement carrying
  \<open>cmdId\<close> is processed. For \<open>cmdId = 0x00\<close> the slot, just set to \<open>0x00\<close>, matches at the
  first poll: the call returns true although the peer never answers.
\<close>

theorem waitForAck_zero_counterexample:
  "spi_peer init_world = [] \<and>
   map_option fst (FEHESP32_waitForAck 0 100 init_world) = Some True"
  by code_simp

end
